theory Spec2Isabelle
  imports Complex_Main
begin

section \<open>Strings\<close>

text \<open>
  URLs, command output and exception messages are modelled as HOL strings; a character is
  read as a code point below 256.  \<open>contains sub s\<close> is Python's \<^verbatim>\<open>sub in s\<close>,
  \<open>lower\<close> is \<^verbatim>\<open>str.lower\<close> on that range, \<open>str_int\<close> is \<^verbatim>\<open>str\<close> of an
  integer (as an f-string formats it).
\<close>

fun contains :: "string \<Rightarrow> string \<Rightarrow> bool" where
  "contains sub [] = (sub = [])"
| "contains sub (c # cs) = (take (length sub) (c # cs) = sub \<or> contains sub cs)"

definition lower_char :: "char \<Rightarrow> char" where
  "lower_char c =
     (let n = (of_char c :: nat)
      in if (65 \<le> n \<and> n \<le> 90) \<or> (192 \<le> n \<and> n \<le> 222 \<and> n \<noteq> 215)
         then char_of (n + 32) else c)"

definition lower :: "string \<Rightarrow> string" where
  "lower s = map lower_char s"

fun str_nat :: "nat \<Rightarrow> string" where
  "str_nat n =
     (if n < 10 then [''0123456789'' ! n]
      else str_nat (n div 10) @ [''0123456789'' ! (n mod 10)])"

definition str_int :: "int \<Rightarrow> string" where
  "str_int i = (if i < 0 then CHR ''-'' # str_nat (nat (- i)) else str_nat (nat i))"

section \<open>Direct strategy: \<^verbatim>\<open>transcribe_youtube_video\<close> (transcribe_youtube.py)\<close>

text \<open>
  The inference service and the random generator are the environment.  The \<open>n\<close>-th call of
  \<^verbatim>\<open>client.models.generate_content\<close> (counted from 0) either yields the response text or
  raises an exception whose \<^verbatim>\<open>str\<close> is given.  The \<open>n\<close>-th call of
  \<^verbatim>\<open>random.uniform(0, 1)\<close> yields \<^verbatim>\<open>0 + 1 * random()\<close>, which is the double
  \<open>k / 2 ^ 53\<close> for a number \<open>k\<close> below \<open>2 ^ 53\<close>; the environment gives \<open>k\<close>, read
  modulo \<open>2 ^ 53\<close>.  The state counts the calls made so far and records, in order, each
  request sent and each \<^verbatim>\<open>time.sleep\<close> with its argument, the exact value of the double;
  \<^verbatim>\<open>time.sleep\<close> is taken to return.
\<close>

datatype reply = Text string | Error string

record env =
  generate_content :: "nat \<Rightarrow> reply"
  uniform01 :: "nat \<Rightarrow> nat"

datatype event = Invoke nat | Sleep real

record st =
  calls :: nat
  draws :: nat
  trace :: "event list"

definition st0 :: st where
  "st0 = \<lparr>calls = 0, draws = 0, trace = []\<rparr>"

text \<open>
  What the function does for its caller: it returns a value (\<open>None\<close> when the loop body
  never runs and the function falls off its end) or raises an exception with a message.
\<close>

datatype outcome = Return "string option" | Raise string

definition is_overloaded :: "string \<Rightarrow> bool" where
  "is_overloaded error_str \<longleftrightarrow>
     contains ''503'' error_str \<and> contains ''overloaded'' (lower error_str)"

definition is_token_limit :: "string \<Rightarrow> bool" where
  "is_token_limit error_str \<longleftrightarrow> contains ''exceeds the maximum number of tokens'' error_str"

definition overloaded_msg :: "int \<Rightarrow> string" where
  "overloaded_msg max_retries =
     ''Model overloaded after '' @ str_int max_retries @ '' attempts. Please try again later.''"

definition too_long_msg :: string where
  "too_long_msg = ''Video is too long to process (exceeds token limit). Consider using a YouTube transcript API or downloading and processing the video in chunks.''"

text \<open>
  \<^verbatim>\<open>(2 ** attempt) + random.uniform(0, 1)\<close> adds a Python integer and a double: the
  integer is converted to a double, which raises \<^verbatim>\<open>OverflowError\<close> from \<open>2 ^ 1024\<close> on,
  and the sum is rounded to the nearest double, ties to the even one.  The doubles from
  \<open>2 ^ a\<close> to \<open>2 ^ (a + 1)\<close> are the multiples of \<open>2 ^ (a - 52)\<close>; counted in units
  of \<open>2 ^ - 53\<close>, the exact sum is \<open>2 ^ (a + 53) + k\<close> and is rounded to a multiple of
  \<open>2 ^ (a + 1)\<close>.
\<close>

definition round_half_even :: "nat \<Rightarrow> nat \<Rightarrow> nat" where
  "round_half_even n u =
     (let q = n div u; r = n mod u
      in if 2 * r < u \<or> (2 * r = u \<and> even q) then q else q + 1)"

definition float_add :: "nat \<Rightarrow> nat \<Rightarrow> real" where
  "float_add attempt k =
     real (round_half_even (2 ^ (attempt + 53) + k) (2 ^ (attempt + 1)) * 2 ^ (attempt + 1))
       / 2 ^ 53"

definition overflow_msg :: string where
  "overflow_msg = ''int too large to convert to float''"

text \<open>The body of \<^verbatim>\<open>for attempt in range(max_retries)\<close>, over the attempts still to run.\<close>

fun retry_loop :: "env \<Rightarrow> int \<Rightarrow> nat list \<Rightarrow> st \<Rightarrow> outcome \<times> st" where
  "retry_loop E max_retries [] s = (Return None, s)"
| "retry_loop E max_retries (attempt # rest) s =
     (let s1 = s\<lparr>calls := calls s + 1, trace := trace s @ [Invoke attempt]\<rparr>
      in case generate_content E (calls s) of
           Text t \<Rightarrow> (Return (Some t), s1)
         | Error error_str \<Rightarrow>
             if is_overloaded error_str then
               if int attempt < max_retries - 1 then
                 let k = uniform01 E (draws s1) mod 2 ^ 53;
                     s2 = s1\<lparr>draws := draws s1 + 1\<rparr>
                 in if 1024 \<le> attempt then (Raise overflow_msg, s2)
                    else
                      let wait_time = float_add attempt k;
                          s3 = s2\<lparr>trace := trace s2 @ [Sleep wait_time]\<rparr>
                      in retry_loop E max_retries rest s3
               else (Raise (overloaded_msg max_retries), s1)
             else if is_token_limit error_str then (Raise too_long_msg, s1)
             else (Raise error_str, s1))"

definition transcribe_youtube_video :: "env \<Rightarrow> int \<Rightarrow> outcome \<times> st" where
  "transcribe_youtube_video E max_retries = retry_loop E max_retries [0..<nat max_retries] st0"

section \<open>Video identifiers: \<^verbatim>\<open>extract_video_id\<close>\<close>

subsection \<open>The library functions it calls\<close>

text \<open>
  \<^verbatim>\<open>urllib.parse.urlparse\<close>, \<^verbatim>\<open>parse_qs\<close> and \<^verbatim>\<open>re.search\<close> belong to
  Python's standard library; they are modelled after CPython 3.12's \<^verbatim>\<open>urllib/parse.py\<close>.
  Two parts of the library are not spelled out.  The validation of a bracketed host by the
  \<^verbatim>\<open>ipaddress\<close> module is the parameter \<open>ip_ok\<close>.  A percent escape decodes to the
  character with that code, which is what Python does for escapes below \<^verbatim>\<open>%80\<close>;
  higher escapes, which Python decodes as UTF-8, are outside the range of the model.
\<close>

datatype exn = ValueError | IndexError

record parse_result =
  scheme :: string
  netloc :: string
  path :: string
  params :: string
  query :: string
  fragment :: string

definition is_ascii_alpha :: "char \<Rightarrow> bool" where
  "is_ascii_alpha c \<longleftrightarrow>
     (let n = (of_char c :: nat) in (65 \<le> n \<and> n \<le> 90) \<or> (97 \<le> n \<and> n \<le> 122))"

definition is_digit :: "char \<Rightarrow> bool" where
  "is_digit c \<longleftrightarrow> (let n = (of_char c :: nat) in 48 \<le> n \<and> n \<le> 57)"

definition scheme_char :: "char \<Rightarrow> bool" where
  "scheme_char c \<longleftrightarrow>
     is_ascii_alpha c \<or> is_digit c \<or> c = CHR ''+'' \<or> c = CHR ''-'' \<or> c = CHR ''.''"

definition uses_params :: "string list" where
  "uses_params = ['''', ''ftp'', ''hdl'', ''prospero'', ''http'', ''imap'', ''https'', ''shttp'',
     ''rtsp'', ''rtsps'', ''rtspu'', ''sip'', ''sips'', ''mms'', ''sftp'', ''tel'']"

text \<open>\<^verbatim>\<open>s.partition(c)\<close> gives \<open>before c s\<close> and \<open>after c s\<close>; so does \<^verbatim>\<open>s.split(c, 1)\<close>
  when \<open>c\<close> occurs in \<open>s\<close>.\<close>

definition before :: "char \<Rightarrow> string \<Rightarrow> string" where
  "before c s = takeWhile (\<lambda>x. x \<noteq> c) s"

definition after :: "char \<Rightarrow> string \<Rightarrow> string" where
  "after c s = drop 1 (dropWhile (\<lambda>x. x \<noteq> c) s)"

text \<open>\<^verbatim>\<open>s.rpartition(c)[2]\<close>: what follows the last \<open>c\<close>, all of \<open>s\<close> when there is none.\<close>

definition after_last :: "char \<Rightarrow> string \<Rightarrow> string" where
  "after_last c s = rev (takeWhile (\<lambda>x. x \<noteq> c) (rev s))"

text \<open>\<^verbatim>\<open>s.split(c)\<close> for a one-character separator.\<close>

fun split_on :: "char \<Rightarrow> string \<Rightarrow> string list" where
  "split_on sep [] = [[]]"
| "split_on sep (c # cs) =
     (if c = sep then [] # split_on sep cs
      else (c # hd (split_on sep cs)) # tl (split_on sep cs))"

definition netloc_delim :: "char \<Rightarrow> bool" where
  "netloc_delim c \<longleftrightarrow> c = CHR ''/'' \<or> c = CHR ''?'' \<or> c = CHR ''#''"

definition check_bracketed_netloc :: "(string \<Rightarrow> bool) \<Rightarrow> string \<Rightarrow> bool" where
  "check_bracketed_netloc ip_ok nl =
     (let hostname_and_port = after_last CHR ''@'' nl
      in if CHR ''['' \<in> set hostname_and_port then
           let before_bracket = before CHR ''['' hostname_and_port;
               bracketed = after CHR ''['' hostname_and_port;
               port = after CHR '']'' bracketed
           in before_bracket = [] \<and> (port = [] \<or> take 1 port = '':'')
              \<and> ip_ok (before CHR '']'' bracketed)
         else ip_ok (before CHR '':'' hostname_and_port))"

definition urlsplit ::
  "(string \<Rightarrow> bool) \<Rightarrow> string \<Rightarrow> exn + (string \<times> string \<times> string \<times> string \<times> string)" where
  "urlsplit ip_ok url0 =
     (let url1 = dropWhile (\<lambda>c. (of_char c :: nat) \<le> 32) url0;
          url2 = filter (\<lambda>c. c \<noteq> CHR 0x09 \<and> c \<noteq> CHR 0x0D \<and> c \<noteq> CHR 0x0A) url1;
          pre = before CHR '':'' url2;
          has_scheme = (CHR '':'' \<in> set url2 \<and> pre \<noteq> [] \<and> is_ascii_alpha (hd url2)
                        \<and> list_all scheme_char pre);
          sch = (if has_scheme then lower pre else []);
          url3 = (if has_scheme then after CHR '':'' url2 else url2);
          has_netloc = (take 2 url3 = ''//'');
          nl = (if has_netloc then takeWhile (\<lambda>c. \<not> netloc_delim c) (drop 2 url3) else []);
          url4 = (if has_netloc then dropWhile (\<lambda>c. \<not> netloc_delim c) (drop 2 url3) else url3)
      in if has_netloc \<and> (CHR ''['' \<in> set nl) \<noteq> (CHR '']'' \<in> set nl) then Inl ValueError
         else if has_netloc \<and> CHR ''['' \<in> set nl \<and> CHR '']'' \<in> set nl
                 \<and> \<not> check_bracketed_netloc ip_ok nl then Inl ValueError
         else
           let frag = after CHR ''#'' url4;
               url5 = before CHR ''#'' url4;
               qry = after CHR ''?'' url5;
               url6 = before CHR ''?'' url5
           in Inr (sch, nl, url6, qry, frag))"

definition splitparams :: "string \<Rightarrow> string \<times> string" where
  "splitparams u =
     (if CHR ''/'' \<in> set u then
        let seg = after_last CHR ''/'' u;
            front = take (length u - length seg) u
        in if CHR '';'' \<in> set seg then (front @ before CHR '';'' seg, after CHR '';'' seg)
           else (u, [])
      else (before CHR '';'' u, after CHR '';'' u))"

definition urlparse :: "(string \<Rightarrow> bool) \<Rightarrow> string \<Rightarrow> exn + parse_result" where
  "urlparse ip_ok url0 =
     (case urlsplit ip_ok url0 of
        Inl e \<Rightarrow> Inl e
      | Inr (sch, nl, u, qry, frag) \<Rightarrow>
          let (u', prm) = (if sch \<in> set uses_params \<and> CHR '';'' \<in> set u then splitparams u
                           else (u, []))
          in Inr \<lparr>scheme = sch, netloc = nl, path = u', params = prm, query = qry,
                  fragment = frag\<rparr>)"

text \<open>The \<^verbatim>\<open>hostname\<close> attribute of a parse result; \<open>None\<close> when the host is empty.\<close>

definition hostname :: "parse_result \<Rightarrow> string option" where
  "hostname r =
     (let hostinfo = after_last CHR ''@'' (netloc r);
          h = (if CHR ''['' \<in> set hostinfo
               then before CHR '']'' (after CHR ''['' hostinfo)
               else before CHR '':'' hostinfo)
      in if h = [] then None
         else Some (lower (before CHR ''%'' h) @ dropWhile (\<lambda>x. x \<noteq> CHR ''%'') h))"

definition hexval :: "char \<Rightarrow> nat option" where
  "hexval c =
     (let n = (of_char c :: nat)
      in if 48 \<le> n \<and> n \<le> 57 then Some (n - 48)
         else if 65 \<le> n \<and> n \<le> 70 then Some (n - 55)
         else if 97 \<le> n \<and> n \<le> 102 then Some (n - 87)
         else None)"

fun unquote :: "string \<Rightarrow> string" where
  "unquote [] = []"
| "unquote (c # cs) =
     (if c = CHR ''%'' then
        (case cs of
           h1 # h2 # rest \<Rightarrow>
             (case (hexval h1, hexval h2) of
                (Some a, Some b) \<Rightarrow> char_of (16 * a + b) # unquote rest
              | _ \<Rightarrow> c # unquote cs)
         | _ \<Rightarrow> c # unquote cs)
      else c # unquote cs)"

definition unquote_plus :: "string \<Rightarrow> string" where
  "unquote_plus s = unquote (map (\<lambda>c. if c = CHR ''+'' then CHR '' '' else c) s)"

text \<open>\<^verbatim>\<open>parse_qsl\<close> with its defaults: fields are separated by \<^verbatim>\<open>&\<close>, and a field with
  an empty value is dropped.\<close>

definition parse_qsl :: "string \<Rightarrow> (string \<times> string) list" where
  "parse_qsl qs =
     (if qs = [] then []
      else concat (map (\<lambda>name_value.
             if name_value \<noteq> [] \<and> after CHR ''='' name_value \<noteq> []
             then [(unquote_plus (before CHR ''='' name_value),
                    unquote_plus (after CHR ''='' name_value))]
             else []) (split_on CHR ''&'' qs)))"

text \<open>\<^verbatim>\<open>parse_qs(q).get(k, [None])[0]\<close>: the first value recorded for \<open>k\<close>.\<close>

definition qs_first :: "string \<Rightarrow> string \<Rightarrow> string option" where
  "qs_first k q = map_of (parse_qsl q) k"

definition id_char :: "char \<Rightarrow> bool" where
  "id_char c \<longleftrightarrow> is_digit c \<or> is_ascii_alpha c \<or> c = CHR ''_'' \<or> c = CHR ''-''"

text \<open>The pattern \<^verbatim>\<open>(?:v=|/)([0-9A-Za-z_-]{11}).*\<close> tried at the start of \<open>s\<close>, giving
  group 1; \<open>re_search\<close> tries every position from the left, as \<^verbatim>\<open>re.search\<close> does.\<close>

definition match_here :: "string \<Rightarrow> string option" where
  "match_here s =
     (let body = (if take 2 s = ''v='' then Some (drop 2 s)
                  else if take 1 s = ''/'' then Some (drop 1 s) else None)
      in case body of
           None \<Rightarrow> None
         | Some b \<Rightarrow> if 11 \<le> length b \<and> list_all id_char (take 11 b) then Some (take 11 b)
                     else None)"

fun re_search :: "string \<Rightarrow> string option" where
  "re_search [] = None"
| "re_search (c # cs) =
     (case match_here (c # cs) of Some g \<Rightarrow> Some g | None \<Rightarrow> re_search cs)"

subsection \<open>The function itself\<close>

definition extract_video_id :: "(string \<Rightarrow> bool) \<Rightarrow> string \<Rightarrow> exn + string option" where
  "extract_video_id ip_ok url =
     (case urlparse ip_ok url of
        Inl e \<Rightarrow> Inl e
      | Inr parsed_url \<Rightarrow>
          if hostname parsed_url \<in> {Some ''www.youtube.com'', Some ''youtube.com''}
             \<and> path parsed_url = ''/watch''
          then Inr (qs_first ''v'' (query parsed_url))
          else if hostname parsed_url \<in> {Some ''www.youtube.com'', Some ''youtube.com''}
                  \<and> take 7 (path parsed_url) = ''/embed/''
          then (if 2 < length (split_on CHR ''/'' (path parsed_url))
                then Inr (Some (split_on CHR ''/'' (path parsed_url) ! 2))
                else Inl IndexError)
          else if hostname parsed_url \<in> {Some ''youtu.be'', Some ''www.youtu.be''}
          then Inr (Some (drop 1 (path parsed_url)))
          else Inr (re_search url))"

text \<open>A \<open>valid_id\<close> is a string of 11 characters of the identifier alphabet.\<close>

definition valid_id :: "string \<Rightarrow> bool" where
  "valid_id v \<longleftrightarrow> length v = 11 \<and> list_all id_char v"

section \<open>The orchestrator: \<^verbatim>\<open>main\<close> of transcribe_youtube_smart.py\<close>

text \<open>
  Each strategy is a sibling script run as a subprocess.  What \<^verbatim>\<open>subprocess.run\<close>
  gives back is a \<open>completed_process\<close>, or \<open>None\<close> when it raises
  \<^verbatim>\<open>FileNotFoundError\<close>.
\<close>

datatype mode = Transcribe | Summarize | Outline

record completed_process =
  returncode :: int
  stdout :: string
  stderr :: string

definition try_youtube_api :: "completed_process option \<Rightarrow> bool" where
  "try_youtube_api r =
     (case r of
        None \<Rightarrow> False
      | Some result \<Rightarrow>
          if returncode result = 0 then True
          else let error_text = stdout result @ '' '' @ stderr result
               in if contains ''No transcripts'' error_text
                     \<or> contains ''doesn't have any transcripts'' error_text
                  then False else False)"

text \<open>\<^verbatim>\<open>try_gemini_api\<close> returns \<^verbatim>\<open>True\<close>, \<^verbatim>\<open>"token_limit"\<close> or
  \<^verbatim>\<open>False\<close>.\<close>

datatype gemini_result = GTrue | GTokenLimit | GFalse

definition try_gemini_api :: "completed_process option \<Rightarrow> gemini_result" where
  "try_gemini_api r =
     (case r of
        None \<Rightarrow> GFalse
      | Some result \<Rightarrow>
          if returncode result = 0 then GTrue
          else if contains ''exceeds token limit'' (stdout result)
                  \<or> contains ''exceeds the maximum number of tokens'' (stderr result)
          then GTokenLimit else GFalse)"

definition try_ytdlp_gemini :: "completed_process option \<Rightarrow> bool" where
  "try_ytdlp_gemini r =
     (case r of None \<Rightarrow> False | Some result \<Rightarrow> returncode result = 0)"

text \<open>
  The attempt log is the ordered list of the strategy calls that \<^verbatim>\<open>main\<close> makes: the
  captions script, the direct script with its mode, the download script with its mode.

  The world of one run: the validation parameter of the URL parser, whether
  \<^verbatim>\<open>check_youtube_transcript_api()\<close> holds when \<^verbatim>\<open>main\<close> decides to call the
  captions script, and what each script does when it is run.  That check comes after the
  installation prompt, which is reached when the library is missing and nothing is forced;
  the model covers the runs in which the \<^verbatim>\<open>input()\<close> of the prompt returns (on a
  closed standard input it raises \<^verbatim>\<open>EOFError\<close> and \<^verbatim>\<open>main\<close> ends before any
  strategy is run), and there the prompt and the installation only print.  In one run the captions script and the direct script run at most
  once and the download script at most once for each mode, so a result for each mode
  describes every run.  The output file name is passed on to the scripts and takes no part
  in the decisions.
\<close>

datatype call = Captions | Direct mode | Local mode

record world =
  ip_ok :: "string \<Rightarrow> bool"
  transcript_api_available :: bool
  run_api :: "completed_process option"
  run_gemini :: "mode \<Rightarrow> completed_process option"
  run_ytdlp :: "mode \<Rightarrow> completed_process option"

record args =
  url :: string
  force_gemini :: bool
  force_ytdlp :: bool
  mode :: mode

datatype exit = Exit int | Uncaught exn

text \<open>Steps 1 and 2: the forced download, or the captions script.\<close>

definition first_steps :: "world \<Rightarrow> args \<Rightarrow> bool \<times> call list" where
  "first_steps W A =
     (if force_ytdlp A then (try_ytdlp_gemini (run_ytdlp W (mode A)), [Local (mode A)])
      else if \<not> force_gemini A then
        (if transcript_api_available W then (try_youtube_api (run_api W), [Captions])
         else (False, []))
      else (False, []))"

text \<open>Steps 3 to 5: the direct script, then the download script and its coarser modes.\<close>

definition gemini_steps :: "world \<Rightarrow> args \<Rightarrow> call list \<Rightarrow> bool \<times> call list" where
  "gemini_steps W A log0 =
     (let result = try_gemini_api (run_gemini W (mode A));
          log1 = log0 @ [Direct (mode A)]
      in if result = GTokenLimit then
           let success = try_ytdlp_gemini (run_ytdlp W (mode A));
               log2 = log1 @ [Local (mode A)]
           in if \<not> success \<and> mode A = Transcribe then
                let success' = try_ytdlp_gemini (run_ytdlp W Summarize);
                    log3 = log2 @ [Local Summarize]
                in if \<not> success'
                   then (try_ytdlp_gemini (run_ytdlp W Outline), log3 @ [Local Outline])
                   else (success', log3)
              else (success, log2)
         else (result = GTrue, log1))"

definition main :: "world \<Rightarrow> args \<Rightarrow> exit \<times> call list" where
  "main W A =
     (case extract_video_id (ip_ok W) (url A) of
        Inl e \<Rightarrow> (Uncaught e, [])
      | Inr video_id \<Rightarrow>
          if video_id = None \<or> video_id = Some [] then (Exit 1, [])
          else
            let (success, log1) = first_steps W A;
                (success', log2) =
                  (if \<not> success \<and> \<not> force_ytdlp A then gemini_steps W A log1
                   else (success, log1))
            in (Exit (if success' then 0 else 1), log2))"

section \<open>File names: \<^verbatim>\<open>sanitize_filename\<close>\<close>

text \<open>
  A video title is any Unicode string, so here a string is a list of code points.
  \<open>is_space\<close> is the whitespace of \<^verbatim>\<open>str.split()\<close> and \<^verbatim>\<open>str.strip()\<close>;
  \<open>invalid_chars\<close> are the code points of \<^verbatim>\<open><>:"/\|?*\<close>.
\<close>

type_synonym ustring = "nat list"

definition is_space :: "nat \<Rightarrow> bool" where
  "is_space c \<longleftrightarrow>
     (9 \<le> c \<and> c \<le> 13) \<or> (28 \<le> c \<and> c \<le> 32) \<or> c = 133 \<or> c = 160 \<or> c = 5760
     \<or> (8192 \<le> c \<and> c \<le> 8202) \<or> c = 8232 \<or> c = 8233 \<or> c = 8239 \<or> c = 8287 \<or> c = 12288"

definition invalid_chars :: ustring where
  "invalid_chars = [60, 62, 58, 34, 47, 92, 124, 63, 42]"

text \<open>\<^verbatim>\<open>s.replace(char, '')\<close> for a single character.\<close>

definition remove_char :: "nat \<Rightarrow> ustring \<Rightarrow> ustring" where
  "remove_char ch s = filter (\<lambda>c. c \<noteq> ch) s"

text \<open>\<^verbatim>\<open>s.split()\<close>: skip whitespace, read a word up to the next whitespace, repeat.\<close>

function split_ws :: "ustring \<Rightarrow> ustring list" where
  "split_ws s =
     (let s' = dropWhile is_space s
      in if s' = [] then []
         else takeWhile (\<lambda>c. \<not> is_space c) s' # split_ws (dropWhile (\<lambda>c. \<not> is_space c) s'))"
  by pat_completeness auto
termination
proof (relation "measure length")
  show "wf (measure length)" by simp
next
  fix s s' :: ustring
  assume s': "s' = dropWhile is_space s" and ne: "s' \<noteq> []"
  have "\<not> is_space (hd s')"
    using s' ne hd_dropWhile by metis
  then have eq: "dropWhile (\<lambda>c. \<not> is_space c) s' = dropWhile (\<lambda>c. \<not> is_space c) (tl s')"
    using ne by (cases s') simp_all
  have "length (dropWhile (\<lambda>c. \<not> is_space c) (tl s')) \<le> length (tl s')"
    by (rule length_dropWhile_le)
  also have "\<dots> < length s'" using ne by (cases s') simp_all
  also have "\<dots> \<le> length s" unfolding s' by (rule length_dropWhile_le)
  finally show "(dropWhile (\<lambda>c. \<not> is_space c) s', s) \<in> measure length"
    using eq by simp
qed

declare split_ws.simps [simp del]

text \<open>\<^verbatim>\<open>sep.join(ws)\<close>.\<close>

fun join :: "ustring \<Rightarrow> ustring list \<Rightarrow> ustring" where
  "join sep [] = []"
| "join sep [w] = w"
| "join sep (w # ws) = w @ sep @ join sep ws"

text \<open>\<^verbatim>\<open>s.strip()\<close>.\<close>

definition strip :: "ustring \<Rightarrow> ustring" where
  "strip s = rev (dropWhile is_space (rev (dropWhile is_space s)))"

definition sanitize_filename :: "ustring \<Rightarrow> ustring" where
  "sanitize_filename filename =
     (let f1 = fold remove_char invalid_chars filename;
          f2 = join [32] (split_ws f1);
          f3 = (if length f2 > 200 then take 200 f2 else f2)
      in strip f3)"

text \<open>No two neighbouring characters are both whitespace.\<close>

fun no_space_run :: "ustring \<Rightarrow> bool" where
  "no_space_run (a # b # cs) = (\<not> (is_space a \<and> is_space b) \<and> no_space_run (b # cs))"
| "no_space_run _ = True"

section \<open>Download strategy: \<^verbatim>\<open>main\<close> of transcribe_youtube_ytdlp.py\<close>

text \<open>
  A call of a collaborator returns a value or raises an exception with a message.  The
  inference service is seen through the requests sent to it, in order: the upload, each
  status request of the polling loop, the generation request and the deletion request,
  each with the name of the remote file.
\<close>

datatype 'a res = Ok 'a | Exc string

record remote_file =
  file_name :: string
  state_name :: string

datatype request = Upload string | GetFile string | Generate string | DeleteFile string

record services =
  ytdlp_installed :: bool
  user_input :: string
  install_ok :: bool
  download_audio :: "string res"
  upload_file :: "remote_file res"
  get_file :: "nat \<Rightarrow> remote_file res"
  generate :: "string res"
  save_result :: "unit res"
  delete_file :: "unit res"

text \<open>
  The loop \<^verbatim>\<open>while uploaded_file.state.name == "PROCESSING"\<close>; \<open>n\<close> counts the status
  requests made so far.  The loop has no bound, so the result is \<open>None\<close> when the service
  never leaves the processing state.
\<close>

partial_function (option) wait_processing ::
  "services \<Rightarrow> nat \<Rightarrow> remote_file \<Rightarrow> request list \<Rightarrow> (remote_file res \<times> request list) option" where
  "wait_processing S n uploaded_file reqs =
     (if state_name uploaded_file = ''PROCESSING'' then
        (case get_file S n of
           Exc e \<Rightarrow> Some (Exc e, reqs @ [GetFile (file_name uploaded_file)])
         | Ok f \<Rightarrow> wait_processing S (Suc n) f (reqs @ [GetFile (file_name uploaded_file)]))
      else Some (Ok uploaded_file, reqs))"

definition upload_to_gemini ::
  "services \<Rightarrow> request list \<Rightarrow> (remote_file res \<times> request list) option" where
  "upload_to_gemini S reqs =
     (case upload_file S of
        Exc e \<Rightarrow> Some (Exc (''Failed to upload file: '' @ e), reqs)
      | Ok f0 \<Rightarrow>
          (case wait_processing S 0 f0 (reqs @ [Upload (file_name f0)]) of
             None \<Rightarrow> None
           | Some (Exc e, reqs') \<Rightarrow> Some (Exc (''Failed to upload file: '' @ e), reqs')
           | Some (Ok uploaded_file, reqs') \<Rightarrow>
               if state_name uploaded_file = ''FAILED''
               then Some (Exc (''Failed to upload file: '' @ ''File upload failed''), reqs')
               else Some (Ok uploaded_file, reqs')))"

definition transcribe_audio_with_gemini ::
  "services \<Rightarrow> remote_file \<Rightarrow> request list \<Rightarrow> string res \<times> request list" where
  "transcribe_audio_with_gemini S uploaded_file reqs =
     (case generate S of
        Exc e \<Rightarrow> (Exc (''Failed to transcribe audio: '' @ e),
                  reqs @ [Generate (file_name uploaded_file)])
      | Ok text \<Rightarrow> (Ok text, reqs @ [Generate (file_name uploaded_file)]))"

text \<open>\<^verbatim>\<open>cleanup_gemini_file\<close> sends the deletion request; whether the service accepts it
  or raises, the function only prints.\<close>

definition cleanup_gemini_file :: "services \<Rightarrow> remote_file \<Rightarrow> request list \<Rightarrow> request list" where
  "cleanup_gemini_file S uploaded_file reqs =
     (case delete_file S of
        Ok _ \<Rightarrow> reqs @ [DeleteFile (file_name uploaded_file)]
      | Exc e \<Rightarrow> reqs @ [DeleteFile (file_name uploaded_file)])"

text \<open>
  The \<^verbatim>\<open>try\<close> block of \<^verbatim>\<open>main\<close>.  It yields the value of the variable
  \<^verbatim>\<open>uploaded_file\<close> when the block is left (\<open>None\<close> until \<^verbatim>\<open>upload_to_gemini\<close> has
  returned), whether the block ended normally or by an exception, and the requests sent.
\<close>

definition try_block ::
  "services \<Rightarrow> (remote_file option \<times> unit res \<times> request list) option" where
  "try_block S =
     (case download_audio S of
        Exc e \<Rightarrow> Some (None, Exc e, [])
      | Ok downloaded_path \<Rightarrow>
          (case upload_to_gemini S [] of
             None \<Rightarrow> None
           | Some (Exc e, reqs) \<Rightarrow> Some (None, Exc e, reqs)
           | Some (Ok uploaded_file, reqs) \<Rightarrow>
               (case transcribe_audio_with_gemini S uploaded_file reqs of
                  (Exc e, reqs') \<Rightarrow> Some (Some uploaded_file, Exc e, reqs')
                | (Ok result, reqs') \<Rightarrow> Some (Some uploaded_file, save_result S, reqs'))))"

text \<open>\<^verbatim>\<open>main\<close>: the exit code and the requests sent, or \<open>None\<close> when it never returns.\<close>

definition ytdlp_main :: "services \<Rightarrow> (int \<times> request list) option" where
  "ytdlp_main S =
     (if \<not> ytdlp_installed S \<and> \<not> (lower (user_input S) = ''y'' \<and> install_ok S) then Some (1, [])
      else
        (case try_block S of
           None \<Rightarrow> None
         | Some (uploaded_file, r, reqs) \<Rightarrow>
             let reqs' = (case uploaded_file of
                            Some f \<Rightarrow> cleanup_gemini_file S f reqs
                          | None \<Rightarrow> reqs)
             in Some (case r of Exc e \<Rightarrow> 1 | Ok _ \<Rightarrow> 0, reqs')))"

section \<open>Auxiliary notions for the proofs\<close>

text \<open>
  \<open>spaced E t\<close>: in the record \<open>t\<close>, the request of every attempt other than the first
  comes directly after the sleep computed for the attempt before it from the draw of that
  attempt.  \<open>ready E a s\<close>: the state \<open>s\<close> is the one in which the loop starts attempt
  \<open>a\<close>.
\<close>

definition spaced :: "env \<Rightarrow> event list \<Rightarrow> bool" where
  "spaced E t \<longleftrightarrow>
     (\<forall>i a. i < length t \<and> t ! i = Invoke a \<and> 0 < a \<longrightarrow>
        0 < i \<and> t ! (i - 1) = Sleep (float_add (a - 1) (uniform01 E (a - 1) mod 2 ^ 53)))"

definition ready :: "env \<Rightarrow> nat \<Rightarrow> st \<Rightarrow> bool" where
  "ready E a s \<longleftrightarrow>
     spaced E (trace s) \<and> calls s = a \<and> draws s = a \<and> length (trace s) = 2 * a \<and>
     (0 < a \<longrightarrow> last (trace s) = Sleep (float_add (a - 1) (uniform01 E (a - 1) mod 2 ^ 53)))"

text \<open>Sample environments of the direct strategy: the draw \<open>2 ^ 52\<close> is the double 0.5,
  the draw \<open>2 ^ 53 - 1\<close> is the largest double below 1.\<close>

definition overloaded_reply :: "nat \<Rightarrow> reply" where
  "overloaded_reply n = Error ''503 UNAVAILABLE: The model is overloaded.''"

definition half_draw :: "nat \<Rightarrow> nat" where
  "half_draw n = 2 ^ 52"

definition largest_draw :: "nat \<Rightarrow> nat" where
  "largest_draw n = 2 ^ 53 - 1"

definition always_503 :: env where
  "always_503 = \<lparr>generate_content = overloaded_reply, uniform01 = half_draw\<rparr>"

definition near_one :: env where
  "near_one = \<lparr>generate_content = overloaded_reply, uniform01 = largest_draw\<rparr>"

definition bad_key :: env where
  "bad_key = \<lparr>generate_content = (\<lambda>n. Error ''400 API key not valid''),
               uniform01 = half_draw\<rparr>"

definition long_video :: env where
  "long_video = \<lparr>generate_content =
                    (\<lambda>n. Error ''400 The input token count exceeds the maximum number of tokens allowed''),
                  uniform01 = half_draw\<rparr>"

text \<open>A validation parameter that accepts every bracketed host, and a sample identifier.\<close>

definition any_ip :: "string \<Rightarrow> bool" where
  "any_ip h = True"

definition sample_id :: string where
  "sample_id = ''dQw4w9WgXcQ''"

text \<open>\<open>valid_url W A\<close>: \<^verbatim>\<open>main\<close> gets past its check of the URL, that is,
  \<^verbatim>\<open>extract_video_id\<close> returns a non-empty identifier.\<close>

definition valid_url :: "world \<Rightarrow> args \<Rightarrow> bool" where
  "valid_url W A =
     (case extract_video_id (ip_ok W) (url A) of
        Inr (Some v) \<Rightarrow> v \<noteq> []
      | _ \<Rightarrow> False)"

text \<open>Sample requests and worlds of the orchestrator.\<close>

definition default_request :: args where
  "default_request = \<lparr>url = ''https://youtu.be/dQw4w9WgXcQ'', force_gemini = False,
                        force_ytdlp = False, mode = Transcribe\<rparr>"

definition forced_gemini_request :: args where
  "forced_gemini_request = \<lparr>url = ''https://youtu.be/dQw4w9WgXcQ'', force_gemini = True,
                              force_ytdlp = False, mode = Transcribe\<rparr>"

definition forced_ytdlp_request :: args where
  "forced_ytdlp_request = \<lparr>url = ''https://youtu.be/dQw4w9WgXcQ'', force_gemini = False,
                             force_ytdlp = True, mode = Transcribe\<rparr>"

definition ok_proc :: completed_process where
  "ok_proc = \<lparr>returncode = 0, stdout = [], stderr = []\<rparr>"

definition failed_proc :: completed_process where
  "failed_proc = \<lparr>returncode = 1, stdout = ''Error: failed'', stderr = []\<rparr>"

definition no_captions_proc :: completed_process where
  "no_captions_proc = \<lparr>returncode = 1, stdout = ''Error: No transcripts available'', stderr = []\<rparr>"

definition too_long_proc :: completed_process where
  "too_long_proc = \<lparr>returncode = 1,
                     stdout = ''Error processing video: Video is too long to process (exceeds token limit).'',
                     stderr = []\<rparr>"

definition outline_only :: "mode \<Rightarrow> completed_process option" where
  "outline_only m = (if m = Outline then Some ok_proc else Some failed_proc)"

definition always_too_long :: "mode \<Rightarrow> completed_process option" where
  "always_too_long m = Some too_long_proc"

definition always_ok :: "mode \<Rightarrow> completed_process option" where
  "always_ok m = Some ok_proc"

definition outline_world :: world where
  "outline_world = \<lparr>ip_ok = any_ip, transcript_api_available = True,
                      run_api = Some no_captions_proc, run_gemini = always_too_long,
                      run_ytdlp = outline_only\<rparr>"

definition direct_world :: world where
  "direct_world = \<lparr>ip_ok = any_ip, transcript_api_available = True,
                     run_api = Some no_captions_proc, run_gemini = always_ok,
                     run_ytdlp = always_ok\<rparr>"

definition local_world :: world where
  "local_world = \<lparr>ip_ok = any_ip, transcript_api_available = True,
                    run_api = Some no_captions_proc, run_gemini = always_too_long,
                    run_ytdlp = always_ok\<rparr>"

text \<open>A service whose upload is accepted and whose first status request reports failure.\<close>

definition processing_file :: remote_file where
  "processing_file = \<lparr>file_name = ''files/abc123'', state_name = ''PROCESSING''\<rparr>"

definition failed_file :: remote_file where
  "failed_file = \<lparr>file_name = ''files/abc123'', state_name = ''FAILED''\<rparr>"

definition poll_reports_failed :: "nat \<Rightarrow> remote_file res" where
  "poll_reports_failed n = Ok failed_file"

definition poll_fails :: services where
  "poll_fails = \<lparr>ytdlp_installed = True, user_input = [], install_ok = False,
                   download_audio = Ok ''/tmp/tmpdir/audio.mp3'',
                   upload_file = Ok processing_file,
                   get_file = poll_reports_failed,
                   generate = Ok ''transcript'', save_result = Ok (), delete_file = Ok ()\<rparr>"

text \<open>A sample title: two spaces, \<^verbatim>\<open>My\<close>, two spaces, \<^verbatim>\<open><V>:\<close>, a space,
  \<^verbatim>\<open>a/b\<close>, a tab, \<^verbatim>\<open>?\<close>, a space.\<close>

definition sample_title :: ustring where
  "sample_title = [32, 32, 77, 121, 32, 32, 60, 86, 62, 58, 32, 97, 47, 98, 9, 63, 32]"

section \<open>The retry loop of the direct strategy\<close>

subsection \<open>The rounded sum\<close>

lemma sum_split: "(2::nat) ^ (a + 53) + k = 2 ^ 52 * 2 ^ (a + 1) + k"
proof -
  have "(2::nat) ^ (a + 53) = 2 ^ (52 + (a + 1))" by simp
  also have "\<dots> = 2 ^ 52 * 2 ^ (a + 1)" by (rule power_add)
  finally show ?thesis by simp
qed

lemma round_half_even_cases:
  "round_half_even n u = n div u \<or> round_half_even n u = n div u + 1"
  by (simp add: round_half_even_def Let_def)

lemma float_add_lower: "2 ^ a \<le> float_add a k"
proof -
  define u :: nat where "u = 2 ^ (a + 1)"
  define n :: nat where "n = 2 ^ (a + 53) + k"
  have upos: "0 < u" by (simp add: u_def)
  have n: "n = 2 ^ 52 * u + k" unfolding n_def u_def by (rule sum_split)
  have "n div u = 2 ^ 52 + k div u" using upos by (simp add: n)
  then have "2 ^ 52 \<le> round_half_even n u"
    using round_half_even_cases [of n u] by auto
  then have "2 ^ 52 * u \<le> round_half_even n u * u" by simp
  moreover have "(2::nat) ^ 52 * u = 2 ^ a * 2 ^ 53"
    by (simp add: u_def power_add)
  ultimately have "(2::nat) ^ a * 2 ^ 53 \<le> round_half_even n u * u" by simp
  then have "real ((2::nat) ^ a * 2 ^ 53) \<le> real (round_half_even n u * u)"
    by (rule of_nat_mono)
  then have "2 ^ a * 2 ^ 53 \<le> real (round_half_even n u * u)" by simp
  then have "2 ^ a \<le> real (round_half_even n u * u) / 2 ^ 53"
    by (simp add: pos_le_divide_eq)
  then show ?thesis by (simp add: float_add_def n_def u_def)
qed

lemma float_add_upper:
  assumes "k < 2 ^ 53"
  shows "float_add a k \<le> 2 ^ a + 1"
proof -
  define u :: nat where "u = 2 ^ (a + 1)"
  define n :: nat where "n = 2 ^ (a + 53) + k"
  have upos: "0 < u" by (simp add: u_def)
  have n: "n = 2 ^ 52 * u + k" unfolding n_def u_def by (rule sum_split)
  have q: "n div u = 2 ^ 52 + k div u" using upos by (simp add: n)
  have r: "n mod u = k mod u" by (simp add: n)
  have big: "(2::nat) ^ 52 * u = 2 ^ a * 2 ^ 53" by (simp add: u_def power_add)
  have bound: "round_half_even n u * u \<le> 2 ^ a * 2 ^ 53 + 2 ^ 53"
  proof (cases "a \<le> 52")
    case True
    define c :: nat where "c = 2 ^ (52 - a)"
    have "(2::nat) ^ 53 = 2 ^ ((a + 1) + (52 - a))" using True by simp
    also have "\<dots> = u * c" unfolding u_def c_def by (rule power_add)
    finally have cu: "(2::nat) ^ 53 = u * c" .
    then have "k < u * c" using assms by simp
    then have "k div u < c" using upos by (simp add: div_less_iff_less_mult mult.commute)
    then have "k div u + 1 \<le> c" by simp
    then have "(k div u + 1) * u \<le> c * u" by (rule mult_le_mono1)
    moreover have "round_half_even n u \<le> 2 ^ 52 + (k div u + 1)"
      using round_half_even_cases [of n u] q by auto
    then have "round_half_even n u * u \<le> (2 ^ 52 + (k div u + 1)) * u"
      by (rule mult_le_mono1)
    ultimately have "round_half_even n u * u \<le> 2 ^ 52 * u + c * u"
      by (simp add: add_mult_distrib)
    then show ?thesis using big cu by (simp add: mult.commute)
  next
    case False
    then have "53 \<le> a" by simp
    then have "(2::nat) ^ 53 \<le> 2 ^ a" by (rule power_increasing) simp
    then have ka: "k < 2 ^ a" using assms by simp
    have u2: "u = 2 * 2 ^ a" by (simp add: u_def)
    have "k < u" using ka u2 by simp
    then have "k div u = 0" "k mod u = k" by simp_all
    then have "round_half_even n u = 2 ^ 52"
      using ka u2 q r by (simp add: round_half_even_def Let_def)
    then show ?thesis using big by simp
  qed
  have "real (round_half_even n u * u) \<le> real (2 ^ a * 2 ^ 53 + 2 ^ 53)"
    using bound by (rule of_nat_mono)
  then have "real (round_half_even n u * u) \<le> (2 ^ a + 1) * 2 ^ 53"
    by (simp add: algebra_simps)
  then have "real (round_half_even n u * u) / 2 ^ 53 \<le> 2 ^ a + 1"
    by (simp add: pos_divide_le_eq)
  then show ?thesis by (simp add: float_add_def n_def u_def)
qed

lemma float_add_half: "float_add 0 (2 ^ 52) = 3 / 2" "float_add 1 (2 ^ 52) = 5 / 2"
  "float_add 2 (2 ^ 52) = 9 / 2" "float_add 3 (2 ^ 52) = 17 / 2"
  by (simp_all add: float_add_def round_half_even_def Let_def)

lemma float_add_largest: "float_add 0 (2 ^ 53 - 1) = 2"
  by (simp add: float_add_def round_half_even_def Let_def)

lemma float_add_near_one:
  "float_add 0 (2 ^ 53 - 1) = 2" "float_add 1 (2 ^ 53 - 1) = 3"
  "float_add 2 (2 ^ 53 - 1) = 5" "float_add 3 (2 ^ 53 - 1) = 9"
  by (simp_all add: float_add_def round_half_even_def Let_def)

subsection \<open>One pass of the loop\<close>

lemma retry_loop_overloaded:
  assumes "generate_content E (calls s) = Error e" and "is_overloaded e"
  shows "retry_loop E m (a # rest) s =
           (if int a < m - 1
            then if 1024 \<le> a
                 then (Raise overflow_msg,
                       s\<lparr>calls := calls s + 1, draws := draws s + 1,
                         trace := trace s @ [Invoke a]\<rparr>)
                 else retry_loop E m rest
                        (s\<lparr>calls := calls s + 1, draws := draws s + 1,
                           trace := trace s @
                             [Invoke a, Sleep (float_add a (uniform01 E (draws s) mod 2 ^ 53))]\<rparr>)
            else (Raise (overloaded_msg m),
                  s\<lparr>calls := calls s + 1, trace := trace s @ [Invoke a]\<rparr>))"
  using assms by (simp add: Let_def)

lemma retry_loop_not_overloaded:
  assumes "generate_content E (calls s) = Error e" and "\<not> is_overloaded e"
  shows "retry_loop E m (a # rest) s =
           (Raise (if is_token_limit e then too_long_msg else e),
            s\<lparr>calls := calls s + 1, trace := trace s @ [Invoke a]\<rparr>)"
  using assms by (simp add: Let_def)

lemma retry_loop_text:
  assumes "generate_content E (calls s) = Text t"
  shows "retry_loop E m (a # rest) s =
           (Return (Some t), s\<lparr>calls := calls s + 1, trace := trace s @ [Invoke a]\<rparr>)"
  using assms by (simp add: Let_def)

lemma upt_5: "[0..<nat 5] = [0, 1, 2, 3, 4]"
  by (simp add: upt_rec)

lemma overloaded_msg_5:
  "overloaded_msg 5 = ''Model overloaded after 5 attempts. Please try again later.''"
  by (simp add: overloaded_msg_def str_int_def)

lemma is_overloaded_503: "is_overloaded ''503 UNAVAILABLE: The model is overloaded.''"
  by (simp add: is_overloaded_def lower_def lower_char_def)

lemma not_overloaded_bad_key: "\<not> is_overloaded ''400 API key not valid''"
  by (simp add: is_overloaded_def)

lemma not_token_limit_bad_key: "\<not> is_token_limit ''400 API key not valid''"
  by (simp add: is_token_limit_def)

lemma not_overloaded_long:
  "\<not> is_overloaded ''400 The input token count exceeds the maximum number of tokens allowed''"
  by (simp add: is_overloaded_def)

lemma token_limit_long:
  "is_token_limit ''400 The input token count exceeds the maximum number of tokens allowed''"
  by (simp add: is_token_limit_def)

lemma too_long_msg_recognised: "contains ''exceeds token limit'' too_long_msg"
  by (simp add: too_long_msg_def)

lemma five_overloaded:
  assumes "\<forall>n. \<exists>e. generate_content E n = Error e \<and> is_overloaded e"
  shows "transcribe_youtube_video E 5 =
           (Raise ''Model overloaded after 5 attempts. Please try again later.'',
            \<lparr>calls = 5, draws = 4,
             trace = [Invoke 0, Sleep (float_add 0 (uniform01 E 0 mod 2 ^ 53)),
                      Invoke 1, Sleep (float_add 1 (uniform01 E 1 mod 2 ^ 53)),
                      Invoke 2, Sleep (float_add 2 (uniform01 E 2 mod 2 ^ 53)),
                      Invoke 3, Sleep (float_add 3 (uniform01 E 3 mod 2 ^ 53)),
                      Invoke 4]\<rparr>)"
proof -
  have ov: "\<And>s a rest. retry_loop E 5 (a # rest) s =
           (if int a < 5 - 1
            then if 1024 \<le> a
                 then (Raise overflow_msg,
                       s\<lparr>calls := calls s + 1, draws := draws s + 1,
                         trace := trace s @ [Invoke a]\<rparr>)
                 else retry_loop E 5 rest
                        (s\<lparr>calls := calls s + 1, draws := draws s + 1,
                           trace := trace s @
                             [Invoke a, Sleep (float_add a (uniform01 E (draws s) mod 2 ^ 53))]\<rparr>)
            else (Raise (overloaded_msg 5),
                  s\<lparr>calls := calls s + 1, trace := trace s @ [Invoke a]\<rparr>))"
    using assms retry_loop_overloaded by metis
  show ?thesis
    unfolding transcribe_youtube_video_def upt_5
    by (simp add: ov st0_def overloaded_msg_5 numeral_2_eq_2 numeral_3_eq_3
             del: retry_loop.simps)
qed

lemma always_overloaded_samples:
  "\<forall>n. \<exists>e. generate_content always_503 n = Error e \<and> is_overloaded e"
  "\<forall>n. \<exists>e. generate_content near_one n = Error e \<and> is_overloaded e"
  by (simp_all add: always_503_def near_one_def overloaded_reply_def is_overloaded_503)

lemma trace_near_one:
  "trace (snd (transcribe_youtube_video near_one 5)) =
     [Invoke 0, Sleep 2, Invoke 1, Sleep 3, Invoke 2, Sleep 5, Invoke 3, Sleep 9, Invoke 4]"
proof -
  have d: "\<And>n. uniform01 near_one n mod 2 ^ 53 = 2 ^ 53 - 1"
    by (simp add: near_one_def largest_draw_def)
  note r = five_overloaded [OF always_overloaded_samples(2), unfolded d float_add_near_one]
  show ?thesis unfolding r by simp
qed

text \<open>
  Claim C1.  When every call of the inference service fails with the overload error, the
  direct strategy with \<open>max_retries = 5\<close> sends exactly five requests, attempts 0 to 4 with
  a sleep between two of them, and then raises the exception that carries the number of
  attempts; there is no sixth request.
\<close>

theorem always_overloaded_five_calls:
  assumes "\<forall>n. \<exists>e. generate_content E n = Error e \<and> is_overloaded e"
  shows "transcribe_youtube_video E 5 =
           (Raise ''Model overloaded after 5 attempts. Please try again later.'',
            \<lparr>calls = 5, draws = 4,
             trace = [Invoke 0, Sleep (float_add 0 (uniform01 E 0 mod 2 ^ 53)),
                      Invoke 1, Sleep (float_add 1 (uniform01 E 1 mod 2 ^ 53)),
                      Invoke 2, Sleep (float_add 2 (uniform01 E 2 mod 2 ^ 53)),
                      Invoke 3, Sleep (float_add 3 (uniform01 E 3 mod 2 ^ 53)),
                      Invoke 4]\<rparr>)"
  using assms by (rule five_overloaded)

theorem always_overloaded_five_calls_witness:
  "(\<forall>n. \<exists>e. generate_content always_503 n = Error e \<and> is_overloaded e) \<and>
   transcribe_youtube_video always_503 5 =
           (Raise ''Model overloaded after 5 attempts. Please try again later.'',
            \<lparr>calls = 5, draws = 4,
             trace = [Invoke 0, Sleep (3 / 2), Invoke 1, Sleep (5 / 2),
                      Invoke 2, Sleep (9 / 2), Invoke 3, Sleep (17 / 2),
                      Invoke 4]\<rparr>)"
proof -
  have h: "\<forall>n. \<exists>e. generate_content always_503 n = Error e \<and> is_overloaded e"
    by (rule always_overloaded_samples(1))
  have d: "\<And>n. uniform01 always_503 n mod 2 ^ 53 = 2 ^ 52"
    by (simp add: always_503_def half_draw_def)
  note r = always_overloaded_five_calls [OF h, unfolded d float_add_half]
  show ?thesis using h r by blast
qed

text \<open>
  Claim C6.  When the first call of the inference service fails with an error that is not
  the overload error, the direct strategy has sent exactly one request, has drawn no random
  number and has not slept.  An error of any other kind is raised again as it is; the
  token-limit error is raised as the strategy's too-long exception, whose message holds the
  words by which the orchestrator recognises that outcome.
\<close>

theorem first_reply_not_retryable:
  assumes "0 < max_retries" and "generate_content E 0 = Error e" and "\<not> is_overloaded e"
  shows "transcribe_youtube_video E max_retries =
           (Raise (if is_token_limit e then too_long_msg else e),
            \<lparr>calls = 1, draws = 0, trace = [Invoke 0]\<rparr>)
         \<and> contains ''exceeds token limit'' too_long_msg"
proof -
  from assms(1) obtain n where n: "nat max_retries = Suc n"
    by (cases "nat max_retries") auto
  have "[0..<nat max_retries] = 0 # [1..<Suc n]"
    by (simp add: n upt_rec)
  then show ?thesis
    using assms(2,3)
    by (simp add: transcribe_youtube_video_def retry_loop_not_overloaded st0_def
                  too_long_msg_recognised
             del: retry_loop.simps upt_Suc)
qed

theorem first_reply_not_retryable_witness:
  "transcribe_youtube_video bad_key 5 =
     (Raise ''400 API key not valid'', \<lparr>calls = 1, draws = 0, trace = [Invoke 0]\<rparr>)
   \<and> transcribe_youtube_video long_video 5 =
     (Raise too_long_msg, \<lparr>calls = 1, draws = 0, trace = [Invoke 0]\<rparr>)"
proof -
  have p: "(0::int) < 5" by simp
  have b: "generate_content bad_key 0 = Error ''400 API key not valid''"
    by (simp add: bad_key_def)
  have l: "generate_content long_video 0 =
             Error ''400 The input token count exceeds the maximum number of tokens allowed''"
    by (simp add: long_video_def)
  show ?thesis
    using first_reply_not_retryable [OF p b not_overloaded_bad_key]
          first_reply_not_retryable [OF p l not_overloaded_long]
          not_token_limit_bad_key token_limit_long
    by simp
qed

subsection \<open>The length of the waits\<close>

lemma spaced_invoke:
  assumes "ready E a s"
  shows "spaced E (trace s @ [Invoke a])"
  unfolding spaced_def
proof (intro allI impI)
  fix i b
  let ?t = "trace s"
  assume h: "i < length (?t @ [Invoke a]) \<and> (?t @ [Invoke a]) ! i = Invoke b \<and> 0 < b"
  have sp: "\<And>i a. i < length ?t \<Longrightarrow> ?t ! i = Invoke a \<Longrightarrow> 0 < a \<Longrightarrow>
             0 < i \<and> ?t ! (i - 1) = Sleep (float_add (a - 1) (uniform01 E (a - 1) mod 2 ^ 53))"
    using assms unfolding ready_def spaced_def by blast
  have len: "length ?t = 2 * a" using assms by (simp add: ready_def)
  show "0 < i \<and> (?t @ [Invoke a]) ! (i - 1)
          = Sleep (float_add (b - 1) (uniform01 E (b - 1) mod 2 ^ 53))"
  proof (cases "i < length ?t")
    case True
    then have "?t ! i = Invoke b" using h by (simp add: nth_append)
    then have r: "0 < i \<and> ?t ! (i - 1) = Sleep (float_add (b - 1) (uniform01 E (b - 1) mod 2 ^ 53))"
      using sp True h by blast
    have "i - 1 < length ?t" using True by arith
    then have "(?t @ [Invoke a]) ! (i - 1) = ?t ! (i - 1)" by (simp add: nth_append)
    then show ?thesis using r by simp
  next
    case False
    then have i: "i = length ?t" using h by simp
    then have ba: "b = a" using h by simp
    then have pos: "0 < a" using h by simp
    then have ne: "?t \<noteq> []" using len by auto
    have "last ?t = Sleep (float_add (a - 1) (uniform01 E (a - 1) mod 2 ^ 53))"
      using assms pos by (simp add: ready_def)
    moreover have "(?t @ [Invoke a]) ! (i - 1) = last ?t"
      using ne i by (simp add: nth_append last_conv_nth)
    moreover have "0 < i" using i ne by simp
    ultimately show ?thesis using ba by simp
  qed
qed

lemma spaced_sleep:
  assumes "spaced E t"
  shows "spaced E (t @ [Sleep w])"
  unfolding spaced_def
proof (intro allI impI)
  fix i a
  assume h: "i < length (t @ [Sleep w]) \<and> (t @ [Sleep w]) ! i = Invoke a \<and> 0 < a"
  have s: "\<And>i a. i < length t \<Longrightarrow> t ! i = Invoke a \<Longrightarrow> 0 < a \<Longrightarrow>
             0 < i \<and> t ! (i - 1) = Sleep (float_add (a - 1) (uniform01 E (a - 1) mod 2 ^ 53))"
    using assms unfolding spaced_def by blast
  have lt: "i < length t"
  proof (rule ccontr)
    assume "\<not> i < length t"
    then have "i = length t" using h by simp
    then have "(t @ [Sleep w]) ! i = Sleep w" by simp
    then show False using h by simp
  qed
  then have "t ! i = Invoke a" using h by (simp add: nth_append)
  then have r: "0 < i \<and> t ! (i - 1) = Sleep (float_add (a - 1) (uniform01 E (a - 1) mod 2 ^ 53))"
    using s lt h by blast
  have "i - 1 < length t" using lt by arith
  then have "(t @ [Sleep w]) ! (i - 1) = t ! (i - 1)" by (simp add: nth_append)
  then show "0 < i \<and> (t @ [Sleep w]) ! (i - 1)
               = Sleep (float_add (a - 1) (uniform01 E (a - 1) mod 2 ^ 53))"
    using r by simp
qed

lemma ready_step:
  assumes "ready E a s"
  shows "ready E (Suc a)
           (s\<lparr>calls := calls s + 1, draws := draws s + 1,
              trace := trace s @ [Invoke a, Sleep (float_add a (uniform01 E (draws s) mod 2 ^ 53))]\<rparr>)"
proof -
  have d: "draws s = a" "calls s = a" "length (trace s) = 2 * a"
    using assms by (simp_all add: ready_def)
  have "spaced E ((trace s @ [Invoke a]) @ [Sleep (float_add a (uniform01 E a mod 2 ^ 53))])"
    using assms by (intro spaced_sleep spaced_invoke)
  then show ?thesis
    using d by (simp add: ready_def)
qed

lemma ready_st0: "ready E 0 st0"
  by (simp add: ready_def spaced_def st0_def)

lemma retry_loop_spaced:
  "xs = [a..<n] \<Longrightarrow> ready E a s \<Longrightarrow> spaced E (trace (snd (retry_loop E m xs s)))"
proof (induction xs arbitrary: a s)
  case Nil
  then show ?case by (simp add: ready_def)
next
  case (Cons x xs)
  have an: "a < n" using Cons.prems(1) by (cases "a < n") auto
  have "[a..<n] = a # [Suc a..<n]"
    using an by (rule upt_conv_Cons)
  with Cons.prems(1) have x: "x = a" and xs: "xs = [Suc a..<n]"
    by simp_all
  have inv: "spaced E (trace s @ [Invoke a])"
    using Cons.prems(2) by (rule spaced_invoke)
  show ?case
  proof (cases "generate_content E (calls s)")
    case (Text t)
    then show ?thesis using inv by (simp add: x retry_loop_text del: retry_loop.simps)
  next
    case (Error e)
    show ?thesis
    proof (cases "is_overloaded e")
      case False
      then show ?thesis
        using Error inv by (simp add: x retry_loop_not_overloaded del: retry_loop.simps)
    next
      case True
      note ov = retry_loop_overloaded [OF Error True, of m a xs]
      show ?thesis
      proof (cases "int a < m - 1 \<and> \<not> 1024 \<le> a")
        case False
        then show ?thesis using ov inv by (auto simp: x simp del: retry_loop.simps)
      next
        case go: True
        let ?s2 = "s\<lparr>calls := calls s + 1, draws := draws s + 1,
                     trace := trace s @
                       [Invoke a, Sleep (float_add a (uniform01 E (draws s) mod 2 ^ 53))]\<rparr>"
        have eq: "retry_loop E m (x # xs) s = retry_loop E m xs ?s2"
          using ov go by (simp add: x del: retry_loop.simps)
        have "ready E (Suc a) ?s2" using Cons.prems(2) by (rule ready_step)
        then show ?thesis using Cons.IH [OF xs] eq by simp
      qed
    qed
  qed
qed

lemma retry_loop_extends:
  "\<exists>ev. trace (snd (retry_loop E m xs s)) = trace s @ ev"
proof (induction xs arbitrary: s)
  case Nil
  then show ?case by simp
next
  case (Cons a xs)
  show ?case
  proof (cases "generate_content E (calls s)")
    case (Text t)
    then show ?thesis by (simp add: retry_loop_text del: retry_loop.simps)
  next
    case (Error e)
    show ?thesis
    proof (cases "is_overloaded e")
      case False
      then show ?thesis
        using Error by (simp add: retry_loop_not_overloaded del: retry_loop.simps)
    next
      case True
      note ov = retry_loop_overloaded [OF Error True, of m a xs]
      show ?thesis
      proof (cases "int a < m - 1 \<and> \<not> 1024 \<le> a")
        case False
        then show ?thesis using ov by (auto simp del: retry_loop.simps)
      next
        case go: True
        let ?s2 = "s\<lparr>calls := calls s + 1, draws := draws s + 1,
                     trace := trace s @
                       [Invoke a, Sleep (float_add a (uniform01 E (draws s) mod 2 ^ 53))]\<rparr>"
        have eq: "retry_loop E m (a # xs) s = retry_loop E m xs ?s2"
          using ov go by (simp del: retry_loop.simps)
        obtain ev where "trace (snd (retry_loop E m xs ?s2)) = trace ?s2 @ ev"
          using Cons.IH [of ?s2] by blast
        then show ?thesis using eq by simp
      qed
    qed
  qed
qed

lemma retry_loop_first_request:
  "\<exists>ev. trace (snd (retry_loop E m (a # xs) s)) = trace s @ Invoke a # ev"
proof (cases "generate_content E (calls s)")
  case (Text t)
  then show ?thesis by (simp add: retry_loop_text del: retry_loop.simps)
next
  case (Error e)
  show ?thesis
  proof (cases "is_overloaded e")
    case False
    then show ?thesis
      using Error by (simp add: retry_loop_not_overloaded del: retry_loop.simps)
  next
    case True
    note ov = retry_loop_overloaded [OF Error True, of m a xs]
    show ?thesis
    proof (cases "int a < m - 1 \<and> \<not> 1024 \<le> a")
      case False
      then show ?thesis using ov by (auto simp del: retry_loop.simps)
    next
      case go: True
      let ?s2 = "s\<lparr>calls := calls s + 1, draws := draws s + 1,
                   trace := trace s @
                     [Invoke a, Sleep (float_add a (uniform01 E (draws s) mod 2 ^ 53))]\<rparr>"
      have eq: "retry_loop E m (a # xs) s = retry_loop E m xs ?s2"
        using ov go by (simp del: retry_loop.simps)
      obtain ev where "trace (snd (retry_loop E m xs ?s2)) = trace ?s2 @ ev"
        using retry_loop_extends [of E m xs ?s2] by blast
      then show ?thesis using eq by simp
    qed
  qed
qed

lemma retry_loop_reaches:
  assumes ov: "\<forall>b<k. \<exists>e. generate_content E b = Error e \<and> is_overloaded e"
    and kn: "int k < m" and k: "k \<le> 1024"
  shows "xs = [a..<nat m] \<Longrightarrow> ready E a s \<Longrightarrow> a \<le> k
         \<Longrightarrow> 2 * k < length (trace (snd (retry_loop E m xs s)))
             \<and> trace (snd (retry_loop E m xs s)) ! (2 * k) = Invoke k"
proof (induction xs arbitrary: a s)
  case Nil
  have "[a..<nat m] = []" using Nil.prems(1) by simp
  then have "nat m \<le> a" by auto
  then have "nat m \<le> k" using Nil.prems(3) by simp
  then have False using kn by simp
  then show ?case ..
next
  case (Cons x xs)
  have an: "a < nat m" using Cons.prems(3) kn by simp
  have "[a..<nat m] = a # [Suc a..<nat m]"
    using an by (rule upt_conv_Cons)
  with Cons.prems(1) have x: "x = a" and xs: "xs = [Suc a..<nat m]"
    by simp_all
  have st: "calls s = a" "length (trace s) = 2 * a"
    using Cons.prems(2) by (simp_all add: ready_def)
  show ?case
  proof (cases "a = k")
    case True
    obtain ev where "trace (snd (retry_loop E m (x # xs) s)) = trace s @ Invoke a # ev"
      using retry_loop_first_request [of E m a xs s] x by blast
    then show ?thesis using st True by (simp add: nth_append)
  next
    case False
    then have ak: "a < k" using Cons.prems(3) by simp
    then obtain e where e: "generate_content E (calls s) = Error e" "is_overloaded e"
      using ov st by blast
    have go: "int a < m - 1" "\<not> 1024 \<le> a" using ak kn k by simp_all
    let ?s2 = "s\<lparr>calls := calls s + 1, draws := draws s + 1,
                 trace := trace s @
                   [Invoke a, Sleep (float_add a (uniform01 E (draws s) mod 2 ^ 53))]\<rparr>"
    have eq: "retry_loop E m (x # xs) s = retry_loop E m xs ?s2"
      using retry_loop_overloaded [OF e, of m a xs] go by (simp add: x del: retry_loop.simps)
    have r2: "ready E (Suc a) ?s2" using Cons.prems(2) by (rule ready_step)
    have "Suc a \<le> k" using ak by simp
    then show ?thesis using Cons.IH [OF xs r2] eq by simp
  qed
qed

lemma trace_always_503:
  "trace (snd (transcribe_youtube_video always_503 5)) =
     [Invoke 0, Sleep (3 / 2), Invoke 1, Sleep (5 / 2), Invoke 2, Sleep (9 / 2), Invoke 3,
      Sleep (17 / 2), Invoke 4]"
proof -
  have d: "\<And>n. uniform01 always_503 n mod 2 ^ 53 = 2 ^ 52"
    by (simp add: always_503_def half_draw_def)
  note r = five_overloaded [OF always_overloaded_samples(1), unfolded d float_add_half]
  show ?thesis unfolding r by simp
qed

text \<open>
  Claim C7, as amended.  In every run of the direct strategy, whenever the request of
  attempt \<open>k\<close> (counted from 1, so attempt \<open>k - 1\<close> of the loop) with \<open>k \<ge> 2\<close> is sent,
  the entry directly before it in the record is the sleep whose length is the double nearest
  to \<open>2 ^ (k - 2) + j\<close>, where \<open>j\<close> is the random number drawn for that retry, a double
  of \<open>[0, 1)\<close>; this length lies between \<open>2 ^ (k - 2)\<close> and \<open>2 ^ (k - 2) + 1\<close>, both
  ends included.  And attempts are made: when the first \<open>n\<close> replies are the overload
  error and \<open>n < max_retries\<close>, the request of attempt \<open>n\<close> of the loop is entry \<open>2 n\<close>
  of the record (up to the attempt at which the conversion of \<open>2 ^ attempt\<close> overflows).
\<close>

theorem backoff_before_attempt:
  fixes E :: env and max_retries :: int
  defines "T \<equiv> trace (snd (transcribe_youtube_video E max_retries))"
  shows "(\<forall>i k. i < length T \<and> T ! i = Invoke (k - 1) \<and> 2 \<le> k \<longrightarrow>
            0 < i
            \<and> T ! (i - 1) = Sleep (float_add (k - 2) (uniform01 E (k - 2) mod 2 ^ 53))
            \<and> 2 ^ (k - 2) \<le> float_add (k - 2) (uniform01 E (k - 2) mod 2 ^ 53)
            \<and> float_add (k - 2) (uniform01 E (k - 2) mod 2 ^ 53) \<le> 2 ^ (k - 2) + 1)
         \<and> (\<forall>n. (\<forall>a<n. \<exists>e. generate_content E a = Error e \<and> is_overloaded e)
                  \<and> int n < max_retries \<and> n \<le> 1024 \<longrightarrow>
                2 * n < length T \<and> T ! (2 * n) = Invoke n)"
proof (intro conjI allI impI)
  have sp: "spaced E T"
    unfolding T_def transcribe_youtube_video_def
    using retry_loop_spaced [OF refl ready_st0] .
  fix i k
  assume h: "i < length T \<and> T ! i = Invoke (k - 1) \<and> 2 \<le> k"
  then have "0 < k - 1" by simp
  then have "0 < i \<and> T ! (i - 1) = Sleep (float_add (k - 1 - 1) (uniform01 E (k - 1 - 1) mod 2 ^ 53))"
    using sp h unfolding spaced_def by blast
  moreover have "k - 1 - 1 = k - 2" by simp
  ultimately show "0 < i"
    and "T ! (i - 1) = Sleep (float_add (k - 2) (uniform01 E (k - 2) mod 2 ^ 53))"
    by simp_all
  show "2 ^ (k - 2) \<le> float_add (k - 2) (uniform01 E (k - 2) mod 2 ^ 53)"
    by (rule float_add_lower)
  have "uniform01 E (k - 2) mod 2 ^ 53 < 2 ^ 53" by simp
  then show "float_add (k - 2) (uniform01 E (k - 2) mod 2 ^ 53) \<le> 2 ^ (k - 2) + 1"
    by (rule float_add_upper)
next
  fix n
  assume h: "(\<forall>a<n. \<exists>e. generate_content E a = Error e \<and> is_overloaded e)
             \<and> int n < max_retries \<and> n \<le> 1024"
  have "2 * n < length (trace (snd (retry_loop E max_retries [0..<nat max_retries] st0)))
        \<and> trace (snd (retry_loop E max_retries [0..<nat max_retries] st0)) ! (2 * n) = Invoke n"
    using h by (intro retry_loop_reaches [OF _ _ _ refl ready_st0]) simp_all
  then show "2 * n < length T" and "T ! (2 * n) = Invoke n"
    unfolding T_def transcribe_youtube_video_def by simp_all
qed

theorem backoff_before_attempt_witness:
  "4 < length (trace (snd (transcribe_youtube_video always_503 5)))
   \<and> trace (snd (transcribe_youtube_video always_503 5)) ! 4 = Invoke (3 - 1)
   \<and> trace (snd (transcribe_youtube_video always_503 5)) ! (4 - 1)
       = Sleep (float_add (3 - 2) (uniform01 always_503 (3 - 2) mod 2 ^ 53))
   \<and> float_add (3 - 2) (uniform01 always_503 (3 - 2) mod 2 ^ 53) \<le> 2 ^ (3 - 2) + 1
   \<and> (\<forall>n. \<exists>e. generate_content always_503 n = Error e \<and> is_overloaded e)
   \<and> trace (snd (transcribe_youtube_video always_503 5)) ! (2 * 2) = Invoke 2"
proof -
  let ?T = "trace (snd (transcribe_youtube_video always_503 5))"
  have a: "4 < length ?T \<and> ?T ! 4 = Invoke (3 - 1) \<and> (2::nat) \<le> 3"
    by (simp add: trace_always_503)
  have b: "(\<forall>a<2. \<exists>e. generate_content always_503 a = Error e \<and> is_overloaded e)
           \<and> int 2 < 5 \<and> (2::nat) \<le> 1024"
    using always_overloaded_samples(1) by simp
  note w = backoff_before_attempt [of always_503 5]
  have "?T ! (4 - 1) = Sleep (float_add (3 - 2) (uniform01 always_503 (3 - 2) mod 2 ^ 53))
        \<and> float_add (3 - 2) (uniform01 always_503 (3 - 2) mod 2 ^ 53) \<le> 2 ^ (3 - 2) + 1"
    using w a by blast
  moreover have "?T ! (2 * 2) = Invoke 2"
    using w b by blast
  ultimately show ?thesis
    using a always_overloaded_samples(1) by blast
qed

theorem backoff_reaches_two_counterexample:
  "trace (snd (transcribe_youtube_video near_one 5)) ! 2 = Invoke (2 - 1)
   \<and> trace (snd (transcribe_youtube_video near_one 5)) ! (2 - 1) = Sleep 2
   \<and> \<not> ((2::real) < 2 ^ (2 - 2) + 1)"
  by (simp add: trace_near_one)

section \<open>Resolving video identifiers\<close>

lemma id_char_excludes:
  assumes "list_all id_char v" and "\<not> id_char c"
  shows "c \<notin> set v"
  using assms by (auto simp: list_all_iff)

lemma not_id_chars:
  "\<not> id_char CHR '':''" "\<not> id_char CHR ''/''" "\<not> id_char CHR ''?''" "\<not> id_char CHR ''#''"
  "\<not> id_char CHR '';''" "\<not> id_char CHR ''=''" "\<not> id_char CHR ''&''" "\<not> id_char CHR ''%''"
  "\<not> id_char CHR ''+''" "\<not> id_char CHR 0x09" "\<not> id_char CHR 0x0A" "\<not> id_char CHR 0x0D"
  by (simp_all add: id_char_def is_digit_def is_ascii_alpha_def)

lemma before_Nil [simp]: "before c [] = []"
  by (simp add: before_def)

lemma before_Cons [simp]: "before c (x # s) = (if x = c then [] else x # before c s)"
  by (simp add: before_def)

lemma after_Nil [simp]: "after c [] = []"
  by (simp add: after_def)

lemma after_Cons [simp]: "after c (x # s) = (if x = c then s else after c s)"
  by (simp add: after_def)

lemma before_absent: "c \<notin> set s \<Longrightarrow> before c s = s"
  by (induction s) auto

lemma after_absent: "c \<notin> set s \<Longrightarrow> after c s = []"
  by (induction s) auto

lemma split_on_absent: "c \<notin> set s \<Longrightarrow> split_on c s = [s]"
  by (induction s) auto

lemma unquote_absent: "CHR ''%'' \<notin> set s \<Longrightarrow> unquote s = s"
  by (induction s) auto

lemma plus_absent:
  "CHR ''+'' \<notin> set s \<Longrightarrow> map (\<lambda>c. if c = CHR ''+'' then CHR '' '' else c) s = s"
  by (induction s) auto

lemma unquote_plus_absent:
  "CHR ''%'' \<notin> set s \<Longrightarrow> CHR ''+'' \<notin> set s \<Longrightarrow> unquote_plus s = s"
  by (simp add: unquote_plus_def unquote_absent plus_absent)

lemma filter_absent:
  assumes "CHR 0x09 \<notin> set s" "CHR 0x0D \<notin> set s" "CHR 0x0A \<notin> set s"
  shows "filter (\<lambda>c. c \<noteq> CHR 0x09 \<and> c \<noteq> CHR 0x0D \<and> c \<noteq> CHR 0x0A) s = s"
  using assms by (induction s) auto

lemma no_delim_absent:
  assumes "CHR ''/'' \<notin> set s" "CHR ''?'' \<notin> set s" "CHR ''#'' \<notin> set s"
  shows "takeWhile (\<lambda>c. \<not> netloc_delim c) s = s" "dropWhile (\<lambda>c. \<not> netloc_delim c) s = []"
  using assms by (induction s) (auto simp: netloc_delim_def)

lemma urlparse_watch:
  assumes "valid_id v"
  shows "urlparse f (''https://www.youtube.com/watch?v='' @ v) =
           Inr \<lparr>scheme = ''https'', netloc = ''www.youtube.com'', path = ''/watch'',
                params = [], query = ''v='' @ v, fragment = []\<rparr>"
proof -
  have v: "list_all id_char v" using assms by (simp add: valid_id_def)
  note ex = id_char_excludes [OF v]
  show ?thesis
    by (simp add: urlparse_def urlsplit_def Let_def filter_absent ex not_id_chars
        is_ascii_alpha_def scheme_char_def is_digit_def lower_def lower_char_def
        netloc_delim_def before_absent after_absent uses_params_def)
qed


lemma urlparse_short:
  assumes "valid_id v"
  shows "urlparse f (''https://youtu.be/'' @ v) =
           Inr \<lparr>scheme = ''https'', netloc = ''youtu.be'', path = ''/'' @ v,
                params = [], query = [], fragment = []\<rparr>"
proof -
  have v: "list_all id_char v" using assms by (simp add: valid_id_def)
  note ex = id_char_excludes [OF v]
  show ?thesis
    by (simp add: urlparse_def urlsplit_def Let_def filter_absent ex not_id_chars
        is_ascii_alpha_def scheme_char_def is_digit_def lower_def lower_char_def
        netloc_delim_def before_absent after_absent uses_params_def)
qed

lemma urlparse_embed:
  assumes "valid_id v"
  shows "urlparse f (''https://www.youtube.com/embed/'' @ v) =
           Inr \<lparr>scheme = ''https'', netloc = ''www.youtube.com'', path = ''/embed/'' @ v,
                params = [], query = [], fragment = []\<rparr>"
proof -
  have v: "list_all id_char v" using assms by (simp add: valid_id_def)
  note ex = id_char_excludes [OF v]
  show ?thesis
    by (simp add: urlparse_def urlsplit_def Let_def filter_absent ex not_id_chars
        is_ascii_alpha_def scheme_char_def is_digit_def lower_def lower_char_def
        netloc_delim_def before_absent after_absent uses_params_def)
qed

lemma urlparse_bare:
  assumes "valid_id v"
  shows "urlparse f v =
           Inr \<lparr>scheme = [], netloc = [], path = v, params = [], query = [], fragment = []\<rparr>"
proof -
  have v: "list_all id_char v" using assms by (simp add: valid_id_def)
  note ex = id_char_excludes [OF v]
  have ne: "v \<noteq> []" using assms by (auto simp: valid_id_def)
  have "\<not> (of_char (hd v) :: nat) \<le> 32"
    using v ne by (cases v) (auto simp: id_char_def is_digit_def is_ascii_alpha_def)
  then have strip: "dropWhile (\<lambda>c. (of_char c :: nat) \<le> 32) v = v"
    using ne by (cases v) auto
  have two: "take 2 v \<noteq> ''//''"
    using ex [OF not_id_chars(2)] ne by (cases v) auto
  show ?thesis
    by (simp add: urlparse_def urlsplit_def Let_def strip filter_absent ex not_id_chars two
        before_absent after_absent uses_params_def)
qed

lemma hostname_www:
  "hostname \<lparr>scheme = s, netloc = ''www.youtube.com'', path = p, params = a, query = q,
             fragment = g\<rparr> = Some ''www.youtube.com''"
  by (simp add: hostname_def after_last_def Let_def lower_def lower_char_def)

lemma hostname_short:
  "hostname \<lparr>scheme = s, netloc = ''youtu.be'', path = p, params = a, query = q,
             fragment = g\<rparr> = Some ''youtu.be''"
  by (simp add: hostname_def after_last_def Let_def lower_def lower_char_def)

lemma hostname_none:
  "hostname \<lparr>scheme = s, netloc = [], path = p, params = a, query = q, fragment = g\<rparr> = None"
  by (simp add: hostname_def after_last_def Let_def)

lemma qs_first_v:
  assumes "valid_id v"
  shows "qs_first ''v'' (''v='' @ v) = Some v"
proof -
  have v: "list_all id_char v" using assms by (simp add: valid_id_def)
  note ex = id_char_excludes [OF v]
  have ne: "v \<noteq> []" using assms by (auto simp: valid_id_def)
  have "unquote_plus ''v'' = ''v''" by (simp add: unquote_plus_def)
  then show ?thesis
    using ne
    by (simp add: qs_first_def parse_qsl_def split_on_absent ex not_id_chars
                  unquote_plus_absent)
qed

lemma re_search_bare:
  assumes "list_all id_char s"
  shows "re_search s = None"
  using assms
proof (induction s)
  case Nil
  then show ?case by simp
next
  case (Cons c cs)
  have "c \<noteq> CHR ''/''" using Cons.prems not_id_chars(2) by auto
  moreover have "take 2 (c # cs) \<noteq> ''v=''"
    using Cons.prems not_id_chars(6) by (cases cs) auto
  ultimately have "match_here (c # cs) = None"
    by (simp add: match_here_def)
  then show ?case using Cons by simp
qed

lemma sample_id_valid: "valid_id sample_id"
  by (simp add: valid_id_def sample_id_def id_char_def is_digit_def is_ascii_alpha_def)

text \<open>
  Claim C8, as amended.  For every identifier of 11 characters of the identifier alphabet,
  \<^verbatim>\<open>extract_video_id\<close> returns that identifier from the canonical watch URL, from the
  short URL and from the embed URL built on it.  From the bare identifier it returns
  \<^verbatim>\<open>None\<close>: the last-resort pattern needs \<^verbatim>\<open>v=\<close> or \<^verbatim>\<open>/\<close> before the identifier.
\<close>

theorem resolve_shapes:
  assumes "valid_id v"
  shows "extract_video_id f (''https://www.youtube.com/watch?v='' @ v) = Inr (Some v)
         \<and> extract_video_id f (''https://youtu.be/'' @ v) = Inr (Some v)
         \<and> extract_video_id f (''https://www.youtube.com/embed/'' @ v) = Inr (Some v)
         \<and> extract_video_id f v = Inr None"
proof -
  have v: "list_all id_char v" using assms by (simp add: valid_id_def)
  note ex = id_char_excludes [OF v]
  have 1: "extract_video_id f (''https://www.youtube.com/watch?v='' @ v) = Inr (Some v)"
    unfolding extract_video_id_def urlparse_watch [OF assms]
    by (simp add: hostname_www qs_first_v [OF assms] del: append.simps)
  have 2: "extract_video_id f (''https://youtu.be/'' @ v) = Inr (Some v)"
    unfolding extract_video_id_def urlparse_short [OF assms]
    by (simp add: hostname_short)
  have 3: "extract_video_id f (''https://www.youtube.com/embed/'' @ v) = Inr (Some v)"
    unfolding extract_video_id_def urlparse_embed [OF assms]
    by (simp add: hostname_www split_on_absent ex not_id_chars)
  have 4: "extract_video_id f v = Inr None"
    unfolding extract_video_id_def urlparse_bare [OF assms]
    by (simp add: hostname_none re_search_bare [OF v])
  show ?thesis using 1 2 3 4 by blast
qed

theorem resolve_shapes_witness:
  "valid_id sample_id
   \<and> extract_video_id any_ip (''https://www.youtube.com/watch?v='' @ sample_id) = Inr (Some sample_id)
   \<and> extract_video_id any_ip (''https://youtu.be/'' @ sample_id) = Inr (Some sample_id)
   \<and> extract_video_id any_ip (''https://www.youtube.com/embed/'' @ sample_id) = Inr (Some sample_id)
   \<and> extract_video_id any_ip sample_id = Inr None"
  using sample_id_valid resolve_shapes [OF sample_id_valid, of any_ip] by blast

lemma bare_sample: "extract_video_id any_ip ''dQw4w9WgXcQ'' = Inr None"
  by code_simp

lemma short_sample:
  "extract_video_id any_ip ''https://youtu.be/dQw4w9WgXcQ'' = Inr (Some ''dQw4w9WgXcQ'')"
  by code_simp

theorem bare_identifier_counterexample:
  "valid_id sample_id
   \<and> extract_video_id any_ip (''https://youtu.be/'' @ sample_id) = Inr (Some sample_id)
   \<and> extract_video_id any_ip sample_id = Inr None
   \<and> extract_video_id any_ip sample_id \<noteq> extract_video_id any_ip (''https://youtu.be/'' @ sample_id)"
  using sample_id_valid bare_sample short_sample by (simp add: sample_id_def)

section \<open>The orchestrator\<close>

lemma main_valid:
  assumes "valid_url W A"
  shows "main W A =
           (let (success, log1) = first_steps W A;
                (success', log2) =
                  (if \<not> success \<and> \<not> force_ytdlp A then gemini_steps W A log1
                   else (success, log1))
            in (Exit (if success' then 0 else 1), log2))"
  using assms by (auto simp: main_def valid_url_def split: sum.splits option.splits)

lemma valid_samples:
  "valid_url outline_world default_request" "valid_url outline_world forced_gemini_request"
  "valid_url outline_world forced_ytdlp_request" "valid_url direct_world default_request"
  "valid_url local_world default_request" "valid_url direct_world forced_gemini_request"
  by (simp_all add: valid_url_def outline_world_def direct_world_def local_world_def
        default_request_def forced_gemini_request_def forced_ytdlp_request_def short_sample)

lemma sample_procs:
  "try_youtube_api (Some no_captions_proc) = False"
  "try_gemini_api (Some too_long_proc) = GTokenLimit"
  "try_gemini_api (Some ok_proc) = GTrue"
  "try_ytdlp_gemini (Some ok_proc) = True"
  "try_ytdlp_gemini (Some failed_proc) = False"
  by (simp_all add: try_youtube_api_def try_gemini_api_def try_ytdlp_gemini_def
        no_captions_proc_def too_long_proc_def ok_proc_def failed_proc_def)

lemma outline_world_facts:
  "try_gemini_api (run_gemini outline_world Transcribe) = GTokenLimit"
  "\<not> try_ytdlp_gemini (run_ytdlp outline_world Transcribe)"
  "\<not> try_ytdlp_gemini (run_ytdlp outline_world Summarize)"
  "try_ytdlp_gemini (run_ytdlp outline_world Outline)"
  "\<not> try_youtube_api (run_api outline_world)"
  "transcript_api_available outline_world"
  by (simp_all add: outline_world_def always_too_long_def outline_only_def sample_procs)

text \<open>
  Claim C4.  The request is valid and forces nothing, the captions script is run and fails,
  and the direct script succeeds.  Then \<^verbatim>\<open>main\<close> exits with 0 and its attempt log is the
  captions call followed by the direct call: two entries, the captions script once and
  first, the direct script last, the download script never.
\<close>

theorem captions_fail_direct_succeeds:
  assumes "valid_url W A"
    and "\<not> force_ytdlp A" and "\<not> force_gemini A" and "transcript_api_available W"
    and "\<not> try_youtube_api (run_api W)"
    and "try_gemini_api (run_gemini W (mode A)) = GTrue"
  shows "main W A = (Exit 0, [Captions, Direct (mode A)])"
  using assms(2-) by (simp add: main_valid [OF assms(1)] first_steps_def gemini_steps_def)

theorem captions_fail_direct_succeeds_witness:
  "main direct_world default_request = (Exit 0, [Captions, Direct Transcribe])"
proof -
  have "main direct_world default_request = (Exit 0, [Captions, Direct (mode default_request)])"
    by (rule captions_fail_direct_succeeds [OF valid_samples(4)])
       (simp_all add: direct_world_def default_request_def sample_procs always_ok_def)
  then show ?thesis by (simp add: default_request_def)
qed

text \<open>
  Claim C3.  The request is valid and does not force the download script, the direct script
  is reached (captions skipped or failed) and reports that the video is too long.  Then the
  attempt log is the captions call if one was made, the direct call once, and next the
  download call in the mode that was asked for; whatever follows are download calls in
  coarser modes.  If that download call succeeds, \<^verbatim>\<open>main\<close> exits with 0 and the log ends
  there: no coarser mode is tried.
\<close>

theorem too_large_escalates_to_local:
  assumes "valid_url W A"
    and "\<not> force_ytdlp A"
    and "force_gemini A \<or> \<not> transcript_api_available W \<or> \<not> try_youtube_api (run_api W)"
    and "try_gemini_api (run_gemini W (mode A)) = GTokenLimit"
  shows "(\<exists>rest. snd (main W A) =
            (if force_gemini A \<or> \<not> transcript_api_available W then [] else [Captions])
              @ [Direct (mode A), Local (mode A)] @ rest
            \<and> set rest \<subseteq> {Local Summarize, Local Outline})
         \<and> (try_ytdlp_gemini (run_ytdlp W (mode A)) \<longrightarrow>
              main W A =
                (Exit 0, (if force_gemini A \<or> \<not> transcript_api_available W then [] else [Captions])
                           @ [Direct (mode A), Local (mode A)]))"
  using assms(2-)
  by (auto simp: main_valid [OF assms(1)] first_steps_def gemini_steps_def Let_def)

theorem too_large_escalates_to_local_witness:
  "main local_world default_request = (Exit 0, [Captions, Direct Transcribe, Local Transcribe])"
proof -
  have a: "\<not> force_ytdlp default_request" by (simp add: default_request_def)
  have b: "force_gemini default_request \<or> \<not> transcript_api_available local_world
           \<or> \<not> try_youtube_api (run_api local_world)"
    by (simp add: local_world_def sample_procs)
  have c: "try_gemini_api (run_gemini local_world (mode default_request)) = GTokenLimit"
    by (simp add: local_world_def always_too_long_def sample_procs)
  have d: "try_ytdlp_gemini (run_ytdlp local_world (mode default_request))"
    by (simp add: local_world_def always_ok_def sample_procs)
  show ?thesis
    using too_large_escalates_to_local [OF valid_samples(5) a b c] d
    by (simp add: default_request_def local_world_def)
qed

text \<open>
  Claim C2, as amended.  The request is valid, asks for a transcript and does not force the
  download script; the direct script is reached and reports that the video is too long; the
  download script fails for the transcript and for the summary and succeeds for the outline.
  Then \<^verbatim>\<open>main\<close> exits with 0 and the last call of the log is the download in outline
  mode.  The log has the five entries captions, direct, download of transcript, of summary
  and of outline when the captions script was run, and the last four of them when it was
  skipped.
\<close>

theorem downgrade_to_outline:
  assumes "valid_url W A" and "\<not> force_ytdlp A" and "mode A = Transcribe"
    and "force_gemini A \<or> \<not> transcript_api_available W \<or> \<not> try_youtube_api (run_api W)"
    and "try_gemini_api (run_gemini W Transcribe) = GTokenLimit"
    and "\<not> try_ytdlp_gemini (run_ytdlp W Transcribe)"
    and "\<not> try_ytdlp_gemini (run_ytdlp W Summarize)"
    and "try_ytdlp_gemini (run_ytdlp W Outline)"
  shows "main W A =
           (Exit 0, (if force_gemini A \<or> \<not> transcript_api_available W then [] else [Captions])
                      @ [Direct Transcribe, Local Transcribe, Local Summarize, Local Outline])"
  using assms(2-)
  by (auto simp: main_valid [OF assms(1)] first_steps_def gemini_steps_def Let_def)

theorem downgrade_to_outline_witness:
  "main outline_world default_request =
     (Exit 0, [Captions, Direct Transcribe, Local Transcribe, Local Summarize, Local Outline])
   \<and> main outline_world forced_gemini_request =
     (Exit 0, [Direct Transcribe, Local Transcribe, Local Summarize, Local Outline])"
proof -
  have a: "\<not> force_ytdlp default_request" "mode default_request = Transcribe"
    "force_gemini default_request \<or> \<not> transcript_api_available outline_world
       \<or> \<not> try_youtube_api (run_api outline_world)"
    by (simp_all add: default_request_def outline_world_facts)
  have b: "\<not> force_ytdlp forced_gemini_request" "mode forced_gemini_request = Transcribe"
    "force_gemini forced_gemini_request \<or> \<not> transcript_api_available outline_world
       \<or> \<not> try_youtube_api (run_api outline_world)"
    by (simp_all add: forced_gemini_request_def)
  show ?thesis
    using downgrade_to_outline [OF valid_samples(1) a outline_world_facts(1-4)]
          downgrade_to_outline [OF valid_samples(2) b outline_world_facts(1-4)]
    by (simp add: default_request_def forced_gemini_request_def outline_world_facts)
qed

theorem four_entries_counterexample:
  "valid_url outline_world default_request
   \<and> mode default_request = Transcribe
   \<and> try_gemini_api (run_gemini outline_world Transcribe) = GTokenLimit
   \<and> \<not> try_ytdlp_gemini (run_ytdlp outline_world Transcribe)
   \<and> \<not> try_ytdlp_gemini (run_ytdlp outline_world Summarize)
   \<and> try_ytdlp_gemini (run_ytdlp outline_world Outline)
   \<and> main outline_world default_request =
       (Exit 0, [Captions, Direct Transcribe, Local Transcribe, Local Summarize, Local Outline])
   \<and> length (snd (main outline_world default_request)) \<noteq> 4"
proof -
  have "main outline_world default_request =
       (Exit 0, [Captions, Direct Transcribe, Local Transcribe, Local Summarize, Local Outline])"
    unfolding main_valid [OF valid_samples(1)]
    by (simp add: first_steps_def gemini_steps_def default_request_def outline_world_facts)
  moreover have "mode default_request = Transcribe"
    by (simp add: default_request_def)
  ultimately show ?thesis
    by (simp add: valid_samples(1) outline_world_facts)
qed

text \<open>
  Claim C5, as amended.  For a valid request that forces the download script, \<^verbatim>\<open>main\<close>
  makes that one call, in the mode asked for, and nothing else, whatever its result.  For a
  valid request that forces the direct script (and not the download script), the captions
  script is never run and the direct script is run first and once.  When it does not report
  that the video is too long it is the only call.  When it does, \<^verbatim>\<open>main\<close> goes on to the
  download script in the mode asked for, and, if that fails for a transcript, to the summary
  and then the outline.
\<close>

theorem forced_strategy:
  assumes "valid_url W A"
  shows "(force_ytdlp A \<longrightarrow>
            main W A = (Exit (if try_ytdlp_gemini (run_ytdlp W (mode A)) then 0 else 1),
                        [Local (mode A)]))
         \<and> (force_gemini A \<and> \<not> force_ytdlp A
                \<and> try_gemini_api (run_gemini W (mode A)) \<noteq> GTokenLimit \<longrightarrow>
              main W A = (Exit (if try_gemini_api (run_gemini W (mode A)) = GTrue then 0 else 1),
                          [Direct (mode A)]))
         \<and> (force_gemini A \<and> \<not> force_ytdlp A
                \<and> try_gemini_api (run_gemini W (mode A)) = GTokenLimit \<longrightarrow>
              main W A =
                (if try_ytdlp_gemini (run_ytdlp W (mode A)) \<or> mode A \<noteq> Transcribe
                 then (Exit (if try_ytdlp_gemini (run_ytdlp W (mode A)) then 0 else 1),
                       [Direct (mode A), Local (mode A)])
                 else if try_ytdlp_gemini (run_ytdlp W Summarize)
                 then (Exit 0, [Direct (mode A), Local (mode A), Local Summarize])
                 else (Exit (if try_ytdlp_gemini (run_ytdlp W Outline) then 0 else 1),
                       [Direct (mode A), Local (mode A), Local Summarize, Local Outline])))"
  by (auto simp: main_valid [OF assms] first_steps_def gemini_steps_def Let_def)

theorem forced_strategy_witness:
  "main outline_world forced_ytdlp_request = (Exit 1, [Local Transcribe])
   \<and> main outline_world forced_gemini_request =
       (Exit 0, [Direct Transcribe, Local Transcribe, Local Summarize, Local Outline])
   \<and> main direct_world forced_gemini_request = (Exit 0, [Direct Transcribe])"
proof -
  have a: "force_ytdlp forced_ytdlp_request" "mode forced_ytdlp_request = Transcribe"
    by (simp_all add: forced_ytdlp_request_def)
  have b: "force_gemini forced_gemini_request \<and> \<not> force_ytdlp forced_gemini_request"
    "mode forced_gemini_request = Transcribe"
    by (simp_all add: forced_gemini_request_def)
  have d: "try_gemini_api (run_gemini direct_world Transcribe) = GTrue"
    by (simp add: direct_world_def always_ok_def sample_procs)
  show ?thesis
    using forced_strategy [OF valid_samples(3)] forced_strategy [OF valid_samples(2)]
          forced_strategy [OF valid_samples(6)] a b d outline_world_facts
    by simp
qed

theorem forced_direct_falls_back_counterexample:
  "valid_url outline_world forced_gemini_request
   \<and> force_gemini forced_gemini_request \<and> \<not> force_ytdlp forced_gemini_request
   \<and> snd (main outline_world forced_gemini_request) =
       [Direct Transcribe, Local Transcribe, Local Summarize, Local Outline]"
proof -
  have "snd (main outline_world forced_gemini_request) =
       [Direct Transcribe, Local Transcribe, Local Summarize, Local Outline]"
    unfolding main_valid [OF valid_samples(2)]
    by (simp add: first_steps_def gemini_steps_def forced_gemini_request_def
          outline_world_facts)
  moreover have "force_gemini forced_gemini_request \<and> \<not> force_ytdlp forced_gemini_request"
    by (simp add: forced_gemini_request_def)
  ultimately show ?thesis
    by (simp add: valid_samples(2))
qed

section \<open>Sanitised file names\<close>

lemma fold_remove_char: "fold remove_char cs s = filter (\<lambda>c. c \<notin> set cs) s"
proof (induction cs arbitrary: s)
  case Nil
  then show ?case by simp
next
  case (Cons a cs)
  have "filter (\<lambda>c. c \<notin> set cs) (remove_char a s) = filter (\<lambda>c. c \<notin> set (a # cs)) s"
    by (induction s) (auto simp: remove_char_def)
  then show ?case using Cons by simp
qed

lemma split_ws_unfold:
  "split_ws s =
     (if dropWhile is_space s = [] then []
      else takeWhile (\<lambda>c. \<not> is_space c) (dropWhile is_space s)
           # split_ws (dropWhile (\<lambda>c. \<not> is_space c) (dropWhile is_space s)))"
  by (subst split_ws.simps) (simp add: Let_def)

lemma split_ws_words:
  "w \<in> set (split_ws s) \<Longrightarrow> w \<noteq> [] \<and> (\<forall>c \<in> set w. \<not> is_space c) \<and> set w \<subseteq> set s"
proof (induction s rule: split_ws.induct)
  case (1 s)
  define s' where "s' = dropWhile is_space s"
  show ?case
  proof (cases "s' = []")
    case True
    then have "split_ws s = []" unfolding s'_def by (subst split_ws_unfold) simp
    then show ?thesis using "1.prems" by simp
  next
    case False
    define w0 where "w0 = takeWhile (\<lambda>c. \<not> is_space c) s'"
    define r where "r = dropWhile (\<lambda>c. \<not> is_space c) s'"
    have sw: "split_ws s = w0 # split_ws r"
      using False unfolding s'_def w0_def r_def by (subst split_ws_unfold) simp
    have hd: "\<not> is_space (hd s')"
      unfolding s'_def using False [unfolded s'_def] by (rule hd_dropWhile)
    have sub: "set s' \<subseteq> set s"
      unfolding s'_def by (auto dest: set_dropWhileD)
    show ?thesis
    proof (cases "w = w0")
      case True
      have "w0 \<noteq> []" using False hd unfolding w0_def by (cases s') auto
      moreover have "\<forall>c \<in> set w0. \<not> is_space c"
        unfolding w0_def by (auto dest: set_takeWhileD)
      moreover have "set w0 \<subseteq> set s'"
        unfolding w0_def by (auto dest: set_takeWhileD)
      ultimately show ?thesis using True sub by blast
    next
      case neq: False
      then have mem: "w \<in> set (split_ws r)" using "1.prems" sw by simp
      have "w \<noteq> [] \<and> (\<forall>c \<in> set w. \<not> is_space c) \<and> set w \<subseteq> set r"
        using "1.IH" [OF s'_def False] mem unfolding r_def by blast
      moreover have "set r \<subseteq> set s'"
        unfolding r_def by (auto dest: set_dropWhileD)
      ultimately show ?thesis using sub by blast
    qed
  qed
qed

lemma no_space_run_append:
  "no_space_run (xs @ ys) \<longleftrightarrow>
     no_space_run xs \<and> no_space_run ys \<and>
     (xs \<noteq> [] \<and> ys \<noteq> [] \<longrightarrow> \<not> (is_space (last xs) \<and> is_space (hd ys)))"
proof (induction xs)
  case Nil
  then show ?case by simp
next
  case outer: (Cons a xs)
  show ?case
  proof (cases xs)
    case Nil
    then show ?thesis by (cases ys) auto
  next
    case (Cons b cs)
    then show ?thesis using outer.IH by auto
  qed
qed

lemma no_space_run_words: "\<forall>c \<in> set w. \<not> is_space c \<Longrightarrow> no_space_run w"
  by (induction w rule: no_space_run.induct) auto

lemma join_nonempty: "w \<noteq> [] \<Longrightarrow> join sep (w # ws) \<noteq> [] \<and> hd (join sep (w # ws)) = hd w"
  by (cases ws) auto

lemma set_join: "set (join sep ws) \<subseteq> set sep \<union> \<Union> (set ` set ws)"
  by (induction sep ws rule: join.induct) auto

lemma join_tidy:
  assumes "\<forall>w \<in> set ws. w \<noteq> [] \<and> (\<forall>c \<in> set w. \<not> is_space c)"
  shows "no_space_run (join [32] ws)"
  using assms
proof (induction "[32::nat]" ws rule: join.induct)
  case 1
  then show ?case by simp
next
  case (2 w)
  then show ?case by (simp add: no_space_run_words)
next
  case (3 w v va)
  have w: "w \<noteq> []" "\<forall>c \<in> set w. \<not> is_space c" using 3 by auto
  have v: "v \<noteq> []" "\<not> is_space (hd v)" using 3 by auto
  have r: "no_space_run (join [32] (v # va))" using 3 by simp
  have h: "join [32] (v # va) \<noteq> []" "hd (join [32] (v # va)) = hd v"
    using join_nonempty [OF v(1)] by auto
  have "no_space_run ([32] @ join [32] (v # va))"
    using r h v by (cases "join [32] (v # va)") auto
  moreover have "\<not> is_space (last w)" using w by simp
  ultimately show ?case
    using w by (simp add: no_space_run_append no_space_run_words)
qed

lemma no_space_run_take: "no_space_run f \<Longrightarrow> no_space_run (take n f)"
proof -
  assume "no_space_run f"
  then have "no_space_run (take n f @ drop n f)" by simp
  then show ?thesis unfolding no_space_run_append by blast
qed

lemma no_space_run_dropWhile: "no_space_run f \<Longrightarrow> no_space_run (dropWhile P f)"
proof -
  assume "no_space_run f"
  then have "no_space_run (takeWhile P f @ dropWhile P f)" by simp
  then show ?thesis unfolding no_space_run_append by blast
qed

lemma strip_split: "\<exists>ps ss. f = ps @ strip f @ ss"
proof -
  let ?g = "dropWhile is_space f"
  have "f = takeWhile is_space f @ ?g" by simp
  moreover have "rev ?g = takeWhile is_space (rev ?g) @ dropWhile is_space (rev ?g)" by simp
  then have "?g = strip f @ rev (takeWhile is_space (rev ?g))"
    unfolding strip_def by (metis rev_append rev_rev_ident)
  ultimately show ?thesis by (metis append.assoc)
qed

lemma strip_ends:
  assumes "strip f \<noteq> []"
  shows "\<not> is_space (hd (strip f))" and "\<not> is_space (last (strip f))"
proof -
  let ?g = "dropWhile is_space f"
  let ?h = "dropWhile is_space (rev ?g)"
  have h: "?h \<noteq> []" using assms by (simp add: strip_def)
  then have "\<not> is_space (hd ?h)" using hd_dropWhile by metis
  then show "\<not> is_space (last (strip f))"
    using h by (simp add: strip_def last_rev)
  have g: "?g \<noteq> []"
  proof
    assume e: "?g = []"
    have "?h = []" unfolding e by simp
    then show False using h by simp
  qed
  then have ng: "\<not> is_space (hd ?g)" using hd_dropWhile by metis
  have "?g = strip f @ rev (takeWhile is_space (rev ?g))"
    unfolding strip_def by (metis rev_append rev_rev_ident takeWhile_dropWhile_id)
  then have "hd ?g = hd (strip f)" using assms by (metis hd_append2)
  then show "\<not> is_space (hd (strip f))" using ng by simp
qed

lemma strip_length: "length (strip f) \<le> length f"
proof -
  obtain ps ss where "f = ps @ strip f @ ss" using strip_split by blast
  then have "length f = length (ps @ strip f @ ss)" by simp
  then show ?thesis by simp
qed

lemma strip_set: "set (strip f) \<subseteq> set f"
proof -
  obtain ps ss where "f = ps @ strip f @ ss" using strip_split by blast
  then have "set f = set (ps @ strip f @ ss)" by simp
  then show ?thesis by auto
qed

lemma strip_no_space_run: "no_space_run f \<Longrightarrow> no_space_run (strip f)"
proof -
  assume a: "no_space_run f"
  obtain ps ss where "f = ps @ strip f @ ss" using strip_split by blast
  then have "no_space_run (ps @ strip f @ ss)" using a by simp
  then show ?thesis unfolding no_space_run_append by blast
qed

lemma split_ws_tidy: "\<forall>w \<in> set (split_ws s). w \<noteq> [] \<and> (\<forall>c \<in> set w. \<not> is_space c)"
  using split_ws_words by blast

lemma set_split_ws: "\<Union> (set ` set (split_ws s)) \<subseteq> set s"
  using split_ws_words by blast

lemma clean_sample:
  "fold remove_char invalid_chars sample_title = [32, 32, 77, 121, 32, 32, 86, 32, 97, 98, 9, 32]"
  by (simp add: sample_title_def invalid_chars_def remove_char_def)

lemma split_sample:
  "split_ws [32, 32, 77, 121, 32, 32, 86, 32, 97, 98, 9, 32] = [[77, 121], [86], [97, 98]]"
  by (simp add: split_ws_unfold is_space_def)

lemma sanitize_sample: "sanitize_filename sample_title = [77, 121, 32, 86, 32, 97, 98]"
  by (simp add: sanitize_filename_def clean_sample split_sample strip_def is_space_def)

text \<open>
  Claim C10.  For every string, the result of \<^verbatim>\<open>sanitize_filename\<close> has at most 200
  characters, holds none of the characters \<^verbatim>\<open><>:"/\|?*\<close>, has no two neighbouring
  whitespace characters, and neither starts nor ends with whitespace.
\<close>

theorem sanitize_filename_tidy:
  "length (sanitize_filename s) \<le> 200
   \<and> set (sanitize_filename s) \<inter> set invalid_chars = {}
   \<and> no_space_run (sanitize_filename s)
   \<and> (sanitize_filename s \<noteq> [] \<longrightarrow>
        \<not> is_space (hd (sanitize_filename s)) \<and> \<not> is_space (last (sanitize_filename s)))"
proof -
  define f1 where "f1 = fold remove_char invalid_chars s"
  define f2 where "f2 = join [32] (split_ws f1)"
  define f3 where "f3 = (if length f2 > 200 then take 200 f2 else f2)"
  have sf: "sanitize_filename s = strip f3"
    by (simp add: sanitize_filename_def Let_def f1_def f2_def f3_def)
  have "length f3 \<le> 200" by (simp add: f3_def)
  then have 1: "length (strip f3) \<le> 200"
    using strip_length [of f3] by linarith
  have a: "set f1 \<inter> set invalid_chars = {}"
    by (auto simp: f1_def fold_remove_char)
  have "set f2 \<subseteq> set [32] \<union> \<Union> (set ` set (split_ws f1))"
    unfolding f2_def by (rule set_join)
  then have b: "set f2 \<subseteq> {32} \<union> set f1"
    using set_split_ws [of f1] by auto
  have c: "32 \<notin> set invalid_chars" by (simp add: invalid_chars_def)
  have d: "set f3 \<subseteq> set f2" by (auto simp: f3_def dest: in_set_takeD)
  have 2: "set (strip f3) \<inter> set invalid_chars = {}"
    using a b c d strip_set [of f3] by blast
  have "no_space_run f2"
    unfolding f2_def using split_ws_tidy by (rule join_tidy)
  then have "no_space_run f3" by (simp add: f3_def no_space_run_take)
  then have 3: "no_space_run (strip f3)" by (rule strip_no_space_run)
  show ?thesis
    unfolding sf using 1 2 3 strip_ends [of f3] by blast
qed

theorem sanitize_filename_tidy_witness:
  "sanitize_filename sample_title \<noteq> []
   \<and> \<not> is_space (hd (sanitize_filename sample_title))
   \<and> \<not> is_space (last (sanitize_filename sample_title))
   \<and> length (sanitize_filename sample_title) \<le> 200"
proof -
  have ne: "sanitize_filename sample_title \<noteq> []"
    by (simp add: sanitize_sample)
  show ?thesis
    using ne sanitize_filename_tidy [of sample_title] by blast
qed

section \<open>The uploaded file of the download strategy\<close>

lemma cleanup_sends_delete:
  "cleanup_gemini_file S f reqs = reqs @ [DeleteFile (file_name f)]"
  by (simp add: cleanup_gemini_file_def split: res.splits)

lemma delete_once_handle_is_bound:
  assumes "ytdlp_installed S" and "try_block S = Some (Some f, r, reqs)"
  shows "ytdlp_main S = Some (case r of Exc e \<Rightarrow> 1 | Ok u \<Rightarrow> 0, reqs @ [DeleteFile (file_name f)])"
  using assms by (simp add: ytdlp_main_def cleanup_sends_delete)

lemma wait_processing_poll_fails:
  "wait_processing poll_fails 0 processing_file [Upload ''files/abc123''] =
     Some (Ok failed_file, [Upload ''files/abc123'', GetFile ''files/abc123''])"
  by (simp add: wait_processing.simps poll_fails_def processing_file_def failed_file_def
        poll_reports_failed_def)

lemma upload_poll_fails:
  "upload_to_gemini poll_fails [] =
     Some (Exc ''Failed to upload file: File upload failed'',
           [Upload ''files/abc123'', GetFile ''files/abc123''])"
  using wait_processing_poll_fails
  by (simp add: upload_to_gemini_def poll_fails_def processing_file_def failed_file_def)

text \<open>
  Claim C9 fails on the code.  The service accepts the upload and the first status request
  reports the state \<^verbatim>\<open>FAILED\<close>.  Then \<^verbatim>\<open>upload_to_gemini\<close> raises before it has
  returned the file, the variable \<^verbatim>\<open>uploaded_file\<close> of \<^verbatim>\<open>main\<close> is still
  \<^verbatim>\<open>None\<close> in the \<^verbatim>\<open>finally\<close> clause, and \<^verbatim>\<open>main\<close> returns 1 having sent the
  upload and one status request and no deletion request.
\<close>

theorem poll_failure_leaves_upload:
  "ytdlp_main poll_fails = Some (1, [Upload ''files/abc123'', GetFile ''files/abc123''])"
proof -
  have "try_block poll_fails =
          Some (None, Exc ''Failed to upload file: File upload failed'',
                [Upload ''files/abc123'', GetFile ''files/abc123''])"
    using upload_poll_fails by (simp add: try_block_def poll_fails_def)
  then show ?thesis
    by (simp add: ytdlp_main_def poll_fails_def)
qed

end
